theory Spec2Isabelle
  imports Main "HOL-Library.Word"
begin

unbundle bit_operations_syntax

section \<open>The uCPU assembler (ucasm.c): data\<close>

text \<open>
  The model follows \<^verbatim>\<open>src/assembler/ucasm.c\<close>. C's \<^verbatim>\<open>unsigned\<close> is a 32-bit
  word, \<^verbatim>\<open>unsigned char\<close> an 8-bit word, and a C string is the list of its characters
  before the terminating zero byte. The three diagnostic counters are \<^verbatim>\<open>int\<close> in the
  source and are counted here in \<open>nat\<close>: a run would need more than $2^{31}$ diagnostics
  to overflow them. The text of the listing file is not modelled, only the counters
  that the listing's diagnostics increment.
\<close>

type_synonym unsigned = "32 word"

definition INVALID :: unsigned where
  "INVALID = - 1"

datatype operand_t = REG | IMM | LAB | IND

definition ORG :: unsigned where
  "ORG = 0x10"

text \<open>
  The table \<^verbatim>\<open>token[18]\<close>: name, code, operand type. Its last entry, with the
  \<^verbatim>\<open>NULL\<close> name, only stops the lookup loop and is the end of the list here.
\<close>

definition token :: "(string \<times> unsigned \<times> operand_t) list" where
  "token =
    [(''ANA'', 0x0, REG), (''ANI'', 0x1, IMM), (''XRA'', 0x2, REG), (''XRI'', 0x3, IMM),
     (''ADA'', 0x4, REG), (''ADI'', 0x5, IMM), (''SBA'', 0x6, REG), (''SBI'', 0x7, IMM),
     (''BNC'', 0x8, LAB), (''BNZ'', 0x9, LAB), (''JPR'', 0xA, REG), (''JMP'', 0xB, LAB),
     (''LDA'', 0xC, REG), (''LDI'', 0xD, IMM), (''STA'', 0xE, REG), (''STX'', 0xF, REG),
     (''ORG'', 0x10, IMM)]"

text \<open>The table \<^verbatim>\<open>indreg[9]\<close>, again without its \<^verbatim>\<open>NULL\<close> terminator.\<close>

definition indreg :: "(string \<times> unsigned) list" where
  "indreg =
    [(''%IX'', 0xf8), (''%IY'', 0xf9), (''@IX'', 0xfa), (''@IY'', 0xfb),
     (''@IX+'', 0xfc), (''@IY+'', 0xfd), (''@-IX'', 0xfe), (''@-YY'', 0xff)]"

section \<open>Strings\<close>

text \<open>
  \<^verbatim>\<open>str_toupper\<close>: the loop condition is \<^verbatim>\<open>!*p\<close>. On a string whose first
  character is not the terminator the body never runs and the string is unchanged. On
  the empty string the loop walks past the terminator and out of the buffer, which is
  the value \<open>None\<close>.
\<close>

fun str_toupper :: "string \<Rightarrow> string option" where
  "str_toupper [] = None"
| "str_toupper (c # cs) = Some (c # cs)"

text \<open>
  The successive \<^verbatim>\<open>strtok\<close> calls of the token loop, with the delimiters
  \<^verbatim>\<open>" \t\n"\<close>: the maximal runs of characters that are not delimiters, in order.
  The second argument collects the current token in reverse.
\<close>

definition delim :: "char list" where
  "delim = [CHR '' '', CHR 0x09, CHR 0x0A]"

fun strtok_aux :: "string \<Rightarrow> string \<Rightarrow> string list" where
  "strtok_aux [] acc = (if acc = [] then [] else [rev acc])"
| "strtok_aux (c # cs) acc =
     (if c \<in> set delim
      then (if acc = [] then strtok_aux cs [] else rev acc # strtok_aux cs [])
      else strtok_aux cs (c # acc))"

definition strtok_all :: "string \<Rightarrow> string list" where
  "strtok_all src_line = strtok_aux src_line []"

text \<open>\<^verbatim>\<open>*p == c\<close> on a C string: false on the empty string, whose first byte is zero.\<close>

fun starts :: "string \<Rightarrow> char \<Rightarrow> bool" where
  "starts [] c = False"
| "starts (x # xs) c = (x = c)"

section \<open>Numbers: strtoul and parse_label\<close>

text \<open>
  \<^verbatim>\<open>strtoul\<close> as the C library defines it (\<^verbatim>\<open>unsigned long\<close> of 64 bits): leading
  white space, an optional sign, for base 16 an optional \<^verbatim>\<open>0x\<close>, then the digits of
  the base. The result is the value and the number of characters up to the end
  pointer. With no digit the value is 0 and the end pointer is the start of the string
  (or the \<^verbatim>\<open>x\<close> of a \<^verbatim>\<open>0x\<close> with no digit behind it). A value out of range is
  \<^verbatim>\<open>ULONG_MAX\<close>, a minus sign negates modulo $2^{64}$.
\<close>

definition isspace :: "char \<Rightarrow> bool" where
  "isspace c = (c \<in> set [CHR '' '', CHR 0x09, CHR 0x0A, CHR 0x0B, CHR 0x0C, CHR 0x0D])"

definition digit_val :: "char \<Rightarrow> nat option" where
  "digit_val c =
     (let n = (of_char c :: nat) in
      if 48 \<le> n \<and> n \<le> 57 then Some (n - 48)
      else if 65 \<le> n \<and> n \<le> 90 then Some (n - 55)
      else if 97 \<le> n \<and> n \<le> 122 then Some (n - 87)
      else None)"

fun strtoul_digits :: "nat \<Rightarrow> string \<Rightarrow> nat \<Rightarrow> nat \<Rightarrow> nat \<times> nat" where
  "strtoul_digits base [] acc k = (acc, k)"
| "strtoul_digits base (c # cs) acc k =
     (case digit_val c of
        None \<Rightarrow> (acc, k)
      | Some d \<Rightarrow> if d < base then strtoul_digits base cs (acc * base + d) (Suc k)
                  else (acc, k))"

definition ULONG_MAX :: nat where
  "ULONG_MAX = 2 ^ 64 - 1"

definition has_0x :: "string \<Rightarrow> bool" where
  "has_0x s = (case s of c # d # _ \<Rightarrow> c = CHR ''0'' \<and> (d = CHR ''x'' \<or> d = CHR ''X'') | _ \<Rightarrow> False)"

definition strtoul :: "string \<Rightarrow> nat \<Rightarrow> nat \<times> nat" where
  "strtoul nptr base =
     (let ws = length (takeWhile isspace nptr);
          s0 = dropWhile isspace nptr;
          neg = starts s0 (CHR ''-'');
          sg = (if starts s0 (CHR ''-'') \<or> starts s0 (CHR ''+'') then 1 else 0);
          s1 = drop sg s0;
          px = (if base = 16 \<and> has_0x s1 then 2 else 0);
          s2 = drop px s1;
          (v, n) = strtoul_digits base s2 0 0
      in if n = 0 then (if px = 2 then (0, ws + sg + 1) else (0, 0))
         else (if ULONG_MAX < v then ULONG_MAX
               else if neg then (2 ^ 64 - v) mod 2 ^ 64 else v,
               ws + sg + px + n))"

text \<open>
  \<^verbatim>\<open>parse_label\<close>: the value is stored into an \<^verbatim>\<open>unsigned\<close> (so it is cut to 32
  bits); \<^verbatim>\<open>!*q\<close> holds when the end pointer is the end of the string.
\<close>

definition parse_label :: "string \<Rightarrow> nat \<Rightarrow> nat \<Rightarrow> unsigned \<Rightarrow> unsigned" where
  "parse_label p base max_width max_val =
     (let (v, n) = strtoul p base;
          lnum = (of_nat v :: unsigned)
      in if lnum \<le> max_val \<and> n \<le> max_width \<and> n = length p then lnum else INVALID)"

section \<open>The state of a run and of a line\<close>

text \<open>
  The variables of \<^verbatim>\<open>main\<close> that live across lines. \<^verbatim>\<open>label[10000]\<close> is read and
  written at an index only after the model has checked that the index is below 10000;
  \<^verbatim>\<open>rom[256]\<close> is indexed by the 8-bit \<^verbatim>\<open>pc\<close> and cannot be left.
\<close>

record state =
  label :: "nat \<Rightarrow> unsigned"
  rom :: "8 word \<Rightarrow> unsigned"
  pc :: "8 word"
  syntax_error :: nat
  other_error :: nat
  warning :: nat

datatype parser_state_t = LABEL | MNEMONIC | OPERAND | COMMENT

text \<open>
  The variables declared in the body of the line loop, initialised for every line.
  \<^verbatim>\<open>optype\<close> is \<open>None\<close> for \<^verbatim>\<open>INVALID\<close>, \<^verbatim>\<open>name\<close> is \<open>None\<close> for \<^verbatim>\<open>NULL\<close>.
\<close>

record vars =
  lnum :: unsigned
  olnum :: unsigned
  optype :: "operand_t option"
  opcode :: unsigned
  operand :: unsigned
  name :: "string option"
  parser_state :: parser_state_t

definition init_vars :: vars where
  "init_vars = \<lparr>lnum = INVALID, olnum = INVALID, optype = None, opcode = INVALID,
                 operand = 0, name = None, parser_state = LABEL\<rparr>"

text \<open>
  What the body of the token loop does with one token: go on with the next token
  (\<^verbatim>\<open>continue\<close>, or \<^verbatim>\<open>break\<close> out of the switch, which also ends the loop body),
  jump to \<^verbatim>\<open>print_listing\<close>, jump to \<^verbatim>\<open>syntax_error\<close> with one of the seven messages
  (\<open>msg_t\<close> names them), or index
  \<^verbatim>\<open>label\<close> out of its bounds.
\<close>

datatype msg_t =
  Incorrect_label
| Unexpected_token
| Incorrect_operand
| Incorrect_label_operand
| Not_allowed_indexed_mode_operand
| Not_allowed_reg_operand
| Reg_operand_required

datatype outcome =
  Next vars state
| Print_listing vars state
| Syntax_error msg_t vars state
| Out_of_bounds

section \<open>The parser: one token\<close>

definition set_operand :: "vars \<Rightarrow> state \<Rightarrow> outcome" where
  "set_operand v s =
     Next (v\<lparr>parser_state := COMMENT\<rparr>)
          (if opcode v < ORG then s\<lparr>rom := (rom s)(pc s := rom s (pc s) OR operand v)\<rparr> else s)"

text \<open>
  The lookup loop over \<^verbatim>\<open>token\<close> compares three bytes: \<^verbatim>\<open>memcmp(p, token[i].name, 3)\<close>.
  The names have three characters and no zero byte, so the comparison is equal exactly
  when the first three characters of the token are the name.
\<close>

definition case_MNEMONIC :: "bool \<Rightarrow> string \<Rightarrow> vars \<Rightarrow> state \<Rightarrow> outcome" where
  "case_MNEMONIC second_pass p v s =
     (if starts p (CHR '';'') then Print_listing v s
      else
        let v1 = (case find (\<lambda>(n, c, t). take 3 p = n) token of
                    Some (n, c, t) \<Rightarrow> v\<lparr>name := Some n, opcode := c, optype := Some t\<rparr>
                  | None \<Rightarrow> v)
        in if \<not> second_pass \<and> name v1 = None then Syntax_error Unexpected_token v1 s
           else Next (v1\<lparr>parser_state := OPERAND\<rparr>)
                     (if opcode v1 < ORG
                      then s\<lparr>rom := (rom s)(pc s := push_bit 8 (opcode v1))\<rparr> else s))"

definition case_LABEL :: "bool \<Rightarrow> string \<Rightarrow> vars \<Rightarrow> state \<Rightarrow> outcome" where
  "case_LABEL second_pass p v s =
     (if starts p (CHR ''$'') then
        let v1 = v\<lparr>lnum := parse_label (tl p) 10 4 9999\<rparr> in
        if \<not> second_pass \<and> lnum v1 = INVALID then Syntax_error Incorrect_label v1 s
        else if \<not> unat (lnum v1) < 10000 then Out_of_bounds
        else
          Next (v1\<lparr>parser_state := MNEMONIC\<rparr>)
               ((if second_pass \<and> label s (unat (lnum v1)) \<noteq> ucast (pc s)
                 then s\<lparr>warning := warning s + 1\<rparr> else s)
                \<lparr>label := (label s)(unat (lnum v1) := ucast (pc s))\<rparr>)
      else case_MNEMONIC second_pass p v s)"

definition case_OPERAND :: "bool \<Rightarrow> string \<Rightarrow> vars \<Rightarrow> state \<Rightarrow> outcome" where
  "case_OPERAND second_pass p v s =
     (if starts p (CHR ''$'') then
        if \<not> second_pass \<and> optype v \<noteq> Some LAB then Syntax_error Incorrect_operand v s
        else
          let v1 = v\<lparr>olnum := parse_label (tl p) 10 4 9999\<rparr> in
          if \<not> second_pass \<and> olnum v1 = INVALID
          then Syntax_error Incorrect_label_operand v1 s
          else if \<not> unat (olnum v1) < 10000 then Out_of_bounds
          else if label s (unat (olnum v1)) = INVALID
          then Next v1 (if second_pass then s\<lparr>other_error := other_error s + 1\<rparr> else s)
          else set_operand (v1\<lparr>operand := label s (unat (olnum v1))\<rparr>) s
      else
        let v1 = (case find (\<lambda>(n, c). p = n) indreg of
                    Some (n, c) \<Rightarrow> v\<lparr>operand := c\<rparr>
                  | None \<Rightarrow> v)
        in
        if operand v1 \<noteq> 0 then
          if \<not> second_pass \<and> optype v1 \<noteq> Some REG
          then Syntax_error Not_allowed_indexed_mode_operand v1 s
          else set_operand v1 s
        else if starts p (CHR ''%'') \<and> \<not> second_pass \<and> optype v1 \<noteq> Some REG
        then Syntax_error Not_allowed_reg_operand v1 s
        else if \<not> starts p (CHR ''%'') \<and> \<not> second_pass \<and> optype v1 = Some REG
        then Syntax_error Reg_operand_required v1 s
        else
          let p1 = (if starts p (CHR ''%'') then tl p else p);
              v2 = v1\<lparr>operand := parse_label p1 16 2 0xff\<rparr>
          in if \<not> second_pass \<and> operand v2 = INVALID
             then Syntax_error Incorrect_operand v2 s
             else set_operand v2 (if opcode v2 = ORG then s\<lparr>pc := ucast (operand v2)\<rparr> else s))"

definition switch :: "bool \<Rightarrow> string \<Rightarrow> vars \<Rightarrow> state \<Rightarrow> outcome" where
  "switch second_pass p v s =
     (case parser_state v of
        LABEL \<Rightarrow> case_LABEL second_pass p v s
      | MNEMONIC \<Rightarrow> case_MNEMONIC second_pass p v s
      | OPERAND \<Rightarrow> case_OPERAND second_pass p v s
      | COMMENT \<Rightarrow> Print_listing v s)"

section \<open>The parser: one line, one pass, the run\<close>

fun tokens_loop :: "bool \<Rightarrow> string list \<Rightarrow> vars \<Rightarrow> state \<Rightarrow> outcome" where
  "tokens_loop second_pass [] v s = Next v s"
| "tokens_loop second_pass (p # ps) v s =
     (case switch second_pass p v s of
        Next v' s' \<Rightarrow> tokens_loop second_pass ps v' s'
      | r \<Rightarrow> r)"

text \<open>
  \<^verbatim>\<open>print_listing\<close>: of the code under this label only the increment of \<^verbatim>\<open>pc\<close>
  changes the state of the run.
\<close>

definition print_listing :: "vars \<Rightarrow> state \<Rightarrow> state" where
  "print_listing v s =
     (if (parser_state v = OPERAND \<or> parser_state v = COMMENT) \<and> opcode v < ORG
      then s\<lparr>pc := pc s + 1\<rparr> else s)"

text \<open>
  The end of the body of the line loop: the code under \<^verbatim>\<open>print_listing\<close>, reached
  by the jump or when the tokens are used up, or the code under \<^verbatim>\<open>syntax_error\<close>.
  \<open>None\<close> is a run that has left the bounds of a buffer.
\<close>

fun finish_line :: "outcome \<Rightarrow> state option" where
  "finish_line (Next v s) = Some (print_listing v s)"
| "finish_line (Print_listing v s) = Some (print_listing v s)"
| "finish_line (Syntax_error msg v s) = Some (s\<lparr>syntax_error := syntax_error s + 1\<rparr>)"
| "finish_line Out_of_bounds = None"

text \<open>The body of the line loop for the line in \<^verbatim>\<open>line_buf\<close>.\<close>

definition do_line :: "bool \<Rightarrow> state \<Rightarrow> string \<Rightarrow> state option" where
  "do_line second_pass s line_buf =
     (case str_toupper line_buf of
        None \<Rightarrow> None
      | Some src_line \<Rightarrow>
          finish_line (tokens_loop second_pass (strtok_all src_line) init_vars s))"

text \<open>One pass over the lines that \<^verbatim>\<open>fgets\<close> delivers, from the label \<^verbatim>\<open>second_pass\<close> on.\<close>

fun line_loop :: "bool \<Rightarrow> string list \<Rightarrow> state \<Rightarrow> state option" where
  "line_loop second_pass [] s = Some s"
| "line_loop second_pass (line_buf # rest) s =
     (case do_line second_pass s line_buf of
        None \<Rightarrow> None
      | Some s' \<Rightarrow> line_loop second_pass rest s')"

definition pass :: "bool \<Rightarrow> string list \<Rightarrow> state \<Rightarrow> state option" where
  "pass second_pass src s = line_loop second_pass src (s\<lparr>pc := 0\<rparr>)"

text \<open>
  The state before the first pass. \<^verbatim>\<open>label\<close> is filled with \<^verbatim>\<open>INVALID\<close> by the loop
  at the start of \<^verbatim>\<open>main\<close>; \<^verbatim>\<open>rom\<close> is declared without an initialiser and nothing
  writes to it before the passes, so its content \<open>rom0\<close> is whatever the stack holds.
\<close>

definition init_state :: "(8 word \<Rightarrow> unsigned) \<Rightarrow> state" where
  "init_state rom0 = \<lparr>label = (\<lambda>i. INVALID), rom = rom0, pc = 0,
                      syntax_error = 0, other_error = 0, warning = 0\<rparr>"

text \<open>
  The result of \<^verbatim>\<open>main\<close>: the exit status, the content of the hex file when it is
  written (the 256 words of \<^verbatim>\<open>rom\<close>, row by row), and the final state with its
  counters.
\<close>

record result =
  exit_status :: int
  hex_file :: "(8 word \<Rightarrow> unsigned) option"
  final :: state

definition finish :: "state \<Rightarrow> result" where
  "finish s =
     (if 0 < syntax_error s then \<lparr>exit_status = 1, hex_file = None, final = s\<rparr>
      else \<lparr>exit_status = 0, hex_file = Some (rom s), final = s\<rparr>)"

text \<open>
  \<^verbatim>\<open>main\<close> with \<open>argc\<close>, the indeterminate content of \<^verbatim>\<open>rom\<close> and the lines of the
  source file. The second pass runs when the first one has counted no syntax error.
\<close>

definition main :: "int \<Rightarrow> (8 word \<Rightarrow> unsigned) \<Rightarrow> string list \<Rightarrow> result option" where
  "main argc rom0 src =
     (if argc \<noteq> 4 then Some \<lparr>exit_status = - 1, hex_file = None, final = init_state rom0\<rparr>
      else
        case pass False src (init_state rom0) of
          None \<Rightarrow> None
        | Some s1 \<Rightarrow>
            if syntax_error s1 = 0
            then (case pass True src s1 of None \<Rightarrow> None | Some s2 \<Rightarrow> Some (finish s2))
            else Some (finish s1))"

section \<open>Declarations and references of a line\<close>

text \<open>
  The label id that a line declares: its first token starts with the marker and
  \<^verbatim>\<open>parse_label\<close> accepts the rest of it (the test of \<^verbatim>\<open>case LABEL\<close>).
\<close>

definition declared :: "string \<Rightarrow> nat option" where
  "declared line_buf =
     (case strtok_all line_buf of
        [] \<Rightarrow> None
      | p # ps \<Rightarrow>
          if starts p (CHR ''$'') \<and> parse_label (tl p) 10 4 9999 \<noteq> INVALID
          then Some (unat (parse_label (tl p) 10 4 9999)) else None)"

text \<open>
  The mnemonic token and the token behind it: the first two tokens of the line after
  a label declaration, when the first of them does not open a comment.
\<close>

definition instruction_tokens :: "string \<Rightarrow> (string \<times> string) option" where
  "instruction_tokens line_buf =
     (case strtok_all line_buf of
        [] \<Rightarrow> None
      | p # ps \<Rightarrow>
          (case (if starts p (CHR ''$'') then ps else p # ps) of
             m # r # rest \<Rightarrow> if starts m (CHR '';'') then None else Some (m, r)
           | _ \<Rightarrow> None))"

text \<open>The label id that the operand token of a line refers to.\<close>

definition referenced :: "string \<Rightarrow> nat option" where
  "referenced line_buf =
     (case instruction_tokens line_buf of
        None \<Rightarrow> None
      | Some (m, r) \<Rightarrow>
          if starts r (CHR ''$'') \<and> parse_label (tl r) 10 4 9999 \<noteq> INVALID
          then Some (unat (parse_label (tl r) 10 4 9999)) else None)"

section \<open>The state of an outcome\<close>

text \<open>
  The state that an outcome carries, for the statements about what a token can change.
\<close>

fun out_state :: "outcome \<Rightarrow> state option" where
  "out_state (Next v s) = Some s"
| "out_state (Print_listing v s) = Some s"
| "out_state (Syntax_error m v s) = Some s"
| "out_state Out_of_bounds = None"

section \<open>Label tokens\<close>

text \<open>
  \<^verbatim>\<open>case LABEL\<close> accepts a token as a label declaration when it starts with the
  marker and \<^verbatim>\<open>parse_label\<close> does not return \<^verbatim>\<open>INVALID\<close> for the rest of it.
\<close>

definition label_token_accepted :: "string \<Rightarrow> bool" where
  "label_token_accepted p = (starts p (CHR ''$'') \<and> parse_label (tl p) 10 4 9999 \<noteq> INVALID)"

definition is_dec_digit :: "char \<Rightarrow> bool" where
  "is_dec_digit c = (48 \<le> (of_char c :: nat) \<and> (of_char c :: nat) \<le> 57)"

definition decimal_value :: "string \<Rightarrow> nat" where
  "decimal_value ds = foldl (\<lambda>a c. a * 10 + (of_char c - 48)) 0 ds"

text \<open>
  The specification's wording of a label declaration token: the label marker followed
  by 1 to 4 decimal digits with a value of at most 9999.
\<close>

definition spec_label_token :: "string \<Rightarrow> bool" where
  "spec_label_token p =
     (case p of
        [] \<Rightarrow> False
      | c # ds \<Rightarrow> c = CHR ''$'' \<and> 1 \<le> length ds \<and> length ds \<le> 4
                  \<and> list_all is_dec_digit ds \<and> decimal_value ds \<le> 9999)"

text \<open>
  What the code accepts behind the marker, in the terms of the text \<open>t\<close> itself:
  after leading white space and one optional sign there is at least one character,
  all of them decimal digits, \<open>t\<close> has at most 4 characters, and behind a minus sign
  the digits are zeros.
\<close>

definition label_digits :: "string \<Rightarrow> string" where
  "label_digits t =
     (let s0 = dropWhile isspace t
      in if starts s0 (CHR ''-'') \<or> starts s0 (CHR ''+'') then tl s0 else s0)"

definition label_text :: "string \<Rightarrow> bool" where
  "label_text t =
     (label_digits t \<noteq> [] \<and> list_all is_dec_digit (label_digits t) \<and> length t \<le> 4
      \<and> (if starts (dropWhile isspace t) (CHR ''-'') then decimal_value (label_digits t) = 0
         else True))"

section \<open>Runs on concrete sources\<close>

lemmas run_defs = main_def pass_def init_state_def finish_def do_line_def strtok_all_def delim_def
  init_vars_def switch_def case_LABEL_def case_MNEMONIC_def case_OPERAND_def set_operand_def
  print_listing_def token_def indreg_def ORG_def INVALID_def
  parse_label_def strtoul_def isspace_def has_0x_def digit_val_def ULONG_MAX_def Let_def

text \<open>
  Claim C1 (zero fill): every address of the image that no instruction of the retained
  pass writes holds zero in the output, the image being zeroed before any write.
  \<^verbatim>\<open>rom\<close> has no initialiser and nothing zeroes it: with the stack holding
  \<open>0xABC\<close> in every word, the one-line source \<^verbatim>\<open>LDI 05\<close> is assembled with exit
  status 0 and the hex file holds \<open>0xD05\<close> at address 0 and \<open>0xABC\<close> at the
  addresses 1 and 255, which no instruction wrote.
\<close>

theorem C1_rom_not_zeroed:
  "map_option exit_status (main 4 (\<lambda>a. 0xABC) [''LDI 05'' @ [CHR 0x0A]]) = Some 0 \<and>
   map_option (\<lambda>r. map_option (\<lambda>h. (h 0, h 1, h 255)) (hex_file r))
     (main 4 (\<lambda>a. 0xABC) [''LDI 05'' @ [CHR 0x0A]]) = Some (Some (0xD05, 0xABC, 0xABC))"
  by (simp add: run_defs)

text \<open>
  Claim C3 (duplicate labels): for a label declared \<open>N > 1\<close> times every reference
  resolves to the address of the last declaration, exactly \<open>N - 1\<close> warnings are
  emitted, and the stored address is not altered after a pass-2 warning.
  On the source \<^verbatim>\<open>$1 ADI 00\<close> / \<^verbatim>\<open>JMP $1\<close> / \<^verbatim>\<open>$1 ADI 01\<close> label 1 is declared
  twice, at the addresses 0 and 2. The run counts 2 warnings, and the jump at address
  1 is encoded as \<open>0xB00\<close>: it refers to address 0, the first declaration, because
  the second pass has stored the address of that declaration over the final one.
  On the source \<^verbatim>\<open>$1 ADI 00\<close> / \<^verbatim>\<open>$1 ADI 01\<close> / \<^verbatim>\<open>JMP $1\<close> the jump refers to
  the last declaration, and the run again counts 2 warnings for the 2 declarations.
\<close>

theorem C3_duplicate_label:
  "map_option (\<lambda>r. (exit_status r, warning (final r), map_option (\<lambda>h. (h 0, h 1, h 2)) (hex_file r)))
     (main 4 (\<lambda>a. 0)
        [''$1 ADI 00'' @ [CHR 0x0A], ''JMP $1'' @ [CHR 0x0A], ''$1 ADI 01'' @ [CHR 0x0A]])
   = Some (0, 2, Some (0x500, 0xB00, 0x501)) \<and>
   map_option (\<lambda>r. (exit_status r, warning (final r), map_option (\<lambda>h. (h 0, h 1, h 2)) (hex_file r)))
     (main 4 (\<lambda>a. 0)
        [''$1 ADI 00'' @ [CHR 0x0A], ''$1 ADI 01'' @ [CHR 0x0A], ''JMP $1'' @ [CHR 0x0A]])
   = Some (0, 2, Some (0x500, 0x501, 0xB01))"
  by (simp add: run_defs)

text \<open>
  Claim C4 (case-insensitivity): a source and its lower-cased equivalent produce
  identical images. \<^verbatim>\<open>str_toupper\<close> changes no character of a line, so
  \<^verbatim>\<open>LDI 05\<close> is assembled to \<open>0xD05\<close> with exit status 0, while \<^verbatim>\<open>ldi 05\<close>
  is a syntax error: exit status 1 and no hex file.
\<close>

theorem C4_case_sensitive:
  "map_option (\<lambda>r. (exit_status r, map_option (\<lambda>h. h 0) (hex_file r)))
     (main 4 (\<lambda>a. 0) [''LDI 05'' @ [CHR 0x0A]]) = Some (0, Some 0xD05) \<and>
   map_option (\<lambda>r. (exit_status r, map_option (\<lambda>h. h 0) (hex_file r)))
     (main 4 (\<lambda>a. 0) [''ldi 05'' @ [CHR 0x0A]]) = Some (1, None)"
  by (simp add: run_defs)

text \<open>
  Claim C6 (unknown mnemonic): a token in the mnemonic position that is not one of the
  17 names fails the lookup and is a syntax error in pass 1, also when it only begins
  with a name. The lookup compares three bytes, so \<^verbatim>\<open>LDIX\<close> is looked up as
  \<^verbatim>\<open>LDI\<close>: the source \<^verbatim>\<open>LDIX 05\<close> has no syntax error, exit status 0, and the
  image holds \<open>0xD05\<close> at address 0.
\<close>

theorem C6_prefix_lookup:
  "map_option (\<lambda>r. (exit_status r, syntax_error (final r), map_option (\<lambda>h. h 0) (hex_file r)))
     (main 4 (\<lambda>a. 0) [''LDIX 05'' @ [CHR 0x0A]]) = Some (0, 0, Some 0xD05)"
  by (simp add: run_defs)

text \<open>
  Claim C7 (indexed addressing): a REGISTER operand accepts the 8 spellings of the
  grammar, among them the pre-decrement form on IY, \<^verbatim>\<open>@-IY\<close>. The table
  \<^verbatim>\<open>indreg\<close> spells its last entry \<^verbatim>\<open>@-YY\<close>: the source \<^verbatim>\<open>LDA @-IY\<close> is a
  syntax error (exit status 1, no hex file), and \<^verbatim>\<open>LDA @-YY\<close>, which the grammar
  does not have, is assembled to \<open>0xCFF\<close>.
\<close>

theorem C7_pre_decrement_IY:
  "map_option (\<lambda>r. (exit_status r, syntax_error (final r), hex_file r))
     (main 4 (\<lambda>a. 0) [''LDA @-IY'' @ [CHR 0x0A]]) = Some (1, 1, None) \<and>
   map_option (\<lambda>r. (exit_status r, syntax_error (final r), map_option (\<lambda>h. h 0) (hex_file r)))
     (main 4 (\<lambda>a. 0) [''LDA @-YY'' @ [CHR 0x0A]]) = Some (0, 0, Some 0xCFF)"
  by (simp add: run_defs)

text \<open>
  A reference to a label that is not yet defined leaves the switch with
  \<^verbatim>\<open>break\<close>, and the parser stays in the state \<open>OPERAND\<close>: the next token of the
  line is read as an operand again. So a forward reference that is followed by a
  comment is a syntax error of pass 1, while the same line with a backward reference
  is assembled.
\<close>

lemma forward_reference_then_comment:
  "map_option (\<lambda>r. (exit_status r, syntax_error (final r), hex_file r))
     (main 4 (\<lambda>a. 0) [''JMP $1 ; go'' @ [CHR 0x0A], ''$1 ADI 00'' @ [CHR 0x0A]])
   = Some (1, 1, None) \<and>
   map_option (\<lambda>r. (exit_status r, syntax_error (final r), map_option (\<lambda>h. (h 0, h 1)) (hex_file r)))
     (main 4 (\<lambda>a. 0) [''$1 ADI 00 ; go'' @ [CHR 0x0A], ''JMP $1 ; back'' @ [CHR 0x0A]])
   = Some (0, 0, Some (0x500, 0xB00))"
  by (simp add: run_defs)

text \<open>
  The bare marker: \<^verbatim>\<open>strtoul\<close> converts nothing in the empty string, returns 0 and
  leaves the end pointer at the terminator, so \<^verbatim>\<open>parse_label\<close> returns the label 0.
\<close>

lemma bare_marker: "parse_label [] 10 4 9999 = 0"
  by (simp add: run_defs)

section \<open>Properties of the parser\<close>

subsection \<open>Words and labels\<close>

lemma unat_INVALID: "unat INVALID = 4294967295"
  by (simp add: INVALID_def unsigned_minus_1_eq_mask mask_eq_exp_minus_1)

lemma unat_ucast_pc: "unat (ucast (x :: 8 word) :: unsigned) = unat x"
proof -
  have "unat x < 2 ^ 8" using unsigned_less [of x, where ?'a = nat] by simp
  then have "unat x < 2 ^ 32" by simp
  then show ?thesis by (simp add: unsigned_ucast_eq take_bit_nat_eq_self)
qed

lemma ucast_pc_valid: "(ucast (x :: 8 word) :: unsigned) \<noteq> INVALID"
proof
  assume "(ucast x :: unsigned) = INVALID"
  then have "unat (ucast x :: unsigned) = unat INVALID" by simp
  moreover have "unat x < 2 ^ 8" using unsigned_less [of x, where ?'a = nat] by simp
  ultimately show False by (simp add: unat_INVALID unat_ucast_pc)
qed

lemma parse_label_cases: "parse_label p b w mx = INVALID \<or> parse_label p b w mx \<le> mx"
  by (simp add: parse_label_def Let_def split: prod.splits)

lemma label_index: "parse_label p 10 4 9999 \<noteq> INVALID \<Longrightarrow> unat (parse_label p 10 4 9999) < 10000"
  using parse_label_cases [of p 10 4 9999] by (auto simp: word_le_nat_alt)

lemma INVALID_index: "\<not> unat INVALID < 10000"
  by (simp add: unat_INVALID)


subsection \<open>What one token can change\<close>

lemma set_operand_frame:
  "set_operand v s = r \<Longrightarrow> \<exists>v' s'. r = Next v' s' \<and> parser_state v' = COMMENT \<and> opcode v' = opcode v
     \<and> label s' = label s \<and> pc s' = pc s \<and> syntax_error s' = syntax_error s
     \<and> other_error s' = other_error s \<and> warning s' = warning s"
  by (auto simp: set_operand_def)

lemma case_MNEMONIC_frame:
  "out_state (case_MNEMONIC sp p v s) = Some s' \<Longrightarrow>
     label s' = label s \<and> pc s' = pc s \<and> syntax_error s' = syntax_error s
     \<and> other_error s' = other_error s \<and> warning s' = warning s"
  by (auto simp: case_MNEMONIC_def Let_def split: if_splits option.splits)

lemma case_OPERAND_frame:
  "out_state (case_OPERAND sp p v s) = Some s' \<Longrightarrow>
     label s' = label s \<and> syntax_error s' = syntax_error s \<and> warning s' = warning s"
  by (auto simp: case_OPERAND_def set_operand_def Let_def split: if_splits option.splits)

lemma case_MNEMONIC_Next:
  "case_MNEMONIC sp p v s = Next v' s' \<Longrightarrow> parser_state v' = OPERAND"
  by (auto simp: case_MNEMONIC_def Let_def split: if_splits option.splits)

lemma case_OPERAND_Next:
  "case_OPERAND sp p v s = Next v' s' \<Longrightarrow> parser_state v = OPERAND \<Longrightarrow>
     (parser_state v' = OPERAND \<or> parser_state v' = COMMENT) \<and> opcode v' = opcode v
      \<and> optype v' = optype v"
  by (auto simp: case_OPERAND_def set_operand_def Let_def split: if_splits option.splits)

lemma case_LABEL_Next:
  "case_LABEL sp p v s = Next v' s' \<Longrightarrow> parser_state v' \<noteq> LABEL"
  by (auto simp: case_LABEL_def Let_def dest: case_MNEMONIC_Next split: if_splits)

lemma switch_Next:
  "switch sp p v s = Next v' s' \<Longrightarrow> parser_state v' \<noteq> LABEL"
  by (cases "parser_state v")
     (auto simp: switch_def dest: case_LABEL_Next case_MNEMONIC_Next case_OPERAND_Next)

lemma switch_label_frame:
  assumes "out_state (switch sp p v s) = Some s'"
    and "parser_state v = LABEL \<longrightarrow> \<not> starts p (CHR ''$'')"
  shows "label s' = label s \<and> warning s' = warning s"
  using assms
  by (cases "parser_state v")
     (auto simp: switch_def case_LABEL_def dest: case_MNEMONIC_frame case_OPERAND_frame)

lemma switch_syntax_error:
  "out_state (switch sp p v s) = Some s' \<Longrightarrow> syntax_error s' = syntax_error s"
  by (cases "parser_state v")
     (auto simp: switch_def case_LABEL_def Let_def
           dest: case_MNEMONIC_frame case_OPERAND_frame split: if_splits)

lemma tokens_loop_label_frame:
  "out_state (tokens_loop sp ps v s) = Some s' \<Longrightarrow> parser_state v \<noteq> LABEL \<Longrightarrow>
     label s' = label s \<and> warning s' = warning s"
proof (induction ps arbitrary: v s)
  case Nil
  then show ?case by simp
next
  case (Cons p ps)
  show ?case
  proof (cases "switch sp p v s")
    case (Next v1 s1)
    have a: "label s1 = label s \<and> warning s1 = warning s"
      using switch_label_frame [of sp p v s s1] Next Cons.prems(2) by simp
    have b: "parser_state v1 \<noteq> LABEL" using switch_Next [OF Next] .
    have "out_state (tokens_loop sp ps v1 s1) = Some s'" using Cons.prems(1) Next by simp
    from Cons.IH [OF this b] a show ?thesis by simp
  next
    case (Print_listing v1 s1)
    then show ?thesis
      using switch_label_frame [of sp p v s s1] Cons.prems by simp
  next
    case (Syntax_error m v1 s1)
    then show ?thesis
      using switch_label_frame [of sp p v s s1] Cons.prems by simp
  next
    case Out_of_bounds
    then show ?thesis using Cons.prems by simp
  qed
qed

lemma tokens_loop_syntax_error:
  "out_state (tokens_loop sp ps v s) = Some s' \<Longrightarrow> syntax_error s' = syntax_error s"
proof (induction ps arbitrary: v s)
  case Nil
  then show ?case by simp
next
  case (Cons p ps)
  show ?case
  proof (cases "switch sp p v s")
    case (Next v1 s1)
    have "syntax_error s1 = syntax_error s"
      using switch_syntax_error [of sp p v s s1] Next by simp
    moreover have "out_state (tokens_loop sp ps v1 s1) = Some s'" using Cons.prems Next by simp
    ultimately show ?thesis using Cons.IH by simp
  next
    case (Print_listing v1 s1)
    then show ?thesis using switch_syntax_error [of sp p v s s1] Cons.prems by simp
  next
    case (Syntax_error m v1 s1)
    then show ?thesis using switch_syntax_error [of sp p v s s1] Cons.prems by simp
  next
    case Out_of_bounds
    then show ?thesis using Cons.prems by simp
  qed
qed

subsection \<open>The first pass stays in bounds, the second pass has no syntax error\<close>

lemma switch_first_pass: "switch False p v s \<noteq> Out_of_bounds"
  by (cases "parser_state v")
     (auto simp: switch_def case_LABEL_def case_MNEMONIC_def case_OPERAND_def set_operand_def
                 Let_def label_index split: if_splits option.splits)

lemma tokens_loop_first_pass: "tokens_loop False ps v s \<noteq> Out_of_bounds"
  by (induction ps arbitrary: v s) (auto simp: switch_first_pass split: outcome.splits)

lemma switch_second_pass: "switch True p v s \<noteq> Syntax_error m v' s'"
  by (cases "parser_state v")
     (auto simp: switch_def case_LABEL_def case_MNEMONIC_def case_OPERAND_def set_operand_def
                 Let_def split: if_splits option.splits)

lemma tokens_loop_second_pass: "tokens_loop True ps v s \<noteq> Syntax_error m v' s'"
  by (induction ps arbitrary: v s) (auto simp: switch_second_pass split: outcome.splits)

subsection \<open>One line\<close>

lemma finish_line_out:
  "finish_line r = Some t \<Longrightarrow> \<exists>s'. out_state r = Some s' \<and> label t = label s'
      \<and> warning t = warning s' \<and> other_error t = other_error s' \<and> rom t = rom s'"
  by (cases r) (auto simp: print_listing_def)

lemma case_LABEL_marker:
  assumes "starts p (CHR ''$'')" and "parser_state v = LABEL"
    and "out_state (switch sp p v s) = Some s'"
  shows "label s' = (if parse_label (tl p) 10 4 9999 \<noteq> INVALID
                     then (label s)(unat (parse_label (tl p) 10 4 9999) := ucast (pc s))
                     else label s)"
  using assms
  by (auto simp: switch_def case_LABEL_def Let_def INVALID_index split: if_splits)

lemma tokens_loop_labels:
  assumes "out_state (tokens_loop sp toks init_vars s) = Some s'"
  shows "label s' =
     (case toks of
        [] \<Rightarrow> label s
      | p # ps \<Rightarrow>
          if starts p (CHR ''$'') \<and> parse_label (tl p) 10 4 9999 \<noteq> INVALID
          then (label s)(unat (parse_label (tl p) 10 4 9999) := ucast (pc s))
          else label s)"
proof (cases toks)
  case Nil
  then show ?thesis using assms by simp
next
  case (Cons p ps)
  have st: "parser_state init_vars = LABEL" by (simp add: init_vars_def)
  have first: "\<And>s1. out_state (switch sp p init_vars s) = Some s1 \<Longrightarrow>
      label s1 = (if starts p (CHR ''$'') \<and> parse_label (tl p) 10 4 9999 \<noteq> INVALID
          then (label s)(unat (parse_label (tl p) 10 4 9999) := ucast (pc s))
          else label s)"
  proof -
    fix s1 assume o: "out_state (switch sp p init_vars s) = Some s1"
    show "label s1 = (if starts p (CHR ''$'') \<and> parse_label (tl p) 10 4 9999 \<noteq> INVALID
          then (label s)(unat (parse_label (tl p) 10 4 9999) := ucast (pc s))
          else label s)"
    proof (cases "starts p (CHR ''$'')")
      case True
      then show ?thesis using case_LABEL_marker [OF True st o] by simp
    next
      case False
      then show ?thesis using switch_label_frame [OF o] by simp
    qed
  qed
  show ?thesis
  proof (cases "switch sp p init_vars s")
    case (Next v1 s1)
    have "out_state (tokens_loop sp ps v1 s1) = Some s'" using assms Cons Next by simp
    from tokens_loop_label_frame [OF this switch_Next [OF Next]]
    have "label s' = label s1" by simp
    then show ?thesis using first [of s1] Next Cons by simp
  next
    case (Print_listing v1 s1)
    then show ?thesis using first [of s1] assms Cons by simp
  next
    case (Syntax_error m v1 s1)
    then show ?thesis using first [of s1] assms Cons by simp
  next
    case Out_of_bounds
    then show ?thesis using assms Cons by simp
  qed
qed

lemma do_line_Some:
  "do_line sp s l = Some t \<Longrightarrow>
     l \<noteq> [] \<and> finish_line (tokens_loop sp (strtok_all l) init_vars s) = Some t"
  by (cases l) (auto simp: do_line_def)

lemma do_line_label:
  assumes "do_line sp s l = Some t"
  shows "label t = (case declared l of None \<Rightarrow> label s | Some n \<Rightarrow> (label s)(n := ucast (pc s)))"
proof -
  from do_line_Some [OF assms] finish_line_out
  obtain s' where o: "out_state (tokens_loop sp (strtok_all l) init_vars s) = Some s'"
    and l: "label t = label s'" by blast
  show ?thesis using tokens_loop_labels [OF o] l
    by (auto simp: declared_def split: list.splits)
qed

lemma do_line_first_pass: "l \<noteq> [] \<Longrightarrow> \<exists>t. do_line False s l = Some t"
  using tokens_loop_first_pass [of "strtok_all l" init_vars s]
  by (cases l; cases "tokens_loop False (strtok_all l) init_vars s") (auto simp: do_line_def)

lemma do_line_syntax_error:
  assumes "do_line sp s l = Some t"
  shows "syntax_error t = syntax_error s
           + (case tokens_loop sp (strtok_all l) init_vars s of Syntax_error m v s' \<Rightarrow> 1 | _ \<Rightarrow> 0)"
  using do_line_Some [OF assms]
     tokens_loop_syntax_error [of sp "strtok_all l" init_vars s]
  by (cases "tokens_loop sp (strtok_all l) init_vars s") (auto simp: print_listing_def)

lemma do_line_second_pass:
  assumes "do_line True s l = Some t"
  shows "syntax_error t = syntax_error s"
  using do_line_syntax_error [OF assms] tokens_loop_second_pass [of "strtok_all l" init_vars s]
  by (cases "tokens_loop True (strtok_all l) init_vars s") auto

subsection \<open>One pass\<close>

lemma line_loop_append:
  "line_loop sp (xs @ ys) s =
     (case line_loop sp xs s of None \<Rightarrow> None | Some t \<Rightarrow> line_loop sp ys t)"
  by (induction xs arbitrary: s) (auto split: option.splits)

lemma line_loop_syntax_error_mono:
  "line_loop sp ls s = Some t \<Longrightarrow> syntax_error s \<le> syntax_error t"
proof (induction ls arbitrary: s)
  case Nil
  then show ?case by simp
next
  case (Cons l ls)
  then obtain s1 where a: "do_line sp s l = Some s1" and b: "line_loop sp ls s1 = Some t"
    by (auto split: option.splits)
  from do_line_syntax_error [OF a] have "syntax_error s \<le> syntax_error s1" by simp
  with Cons.IH [OF b] show ?case by simp
qed

lemma line_loop_second_pass:
  "line_loop True ls s = Some t \<Longrightarrow> syntax_error t = syntax_error s"
proof (induction ls arbitrary: s)
  case Nil
  then show ?case by simp
next
  case (Cons l ls)
  then obtain s1 where a: "do_line True s l = Some s1" and b: "line_loop True ls s1 = Some t"
    by (auto split: option.splits)
  from do_line_second_pass [OF a] Cons.IH [OF b] show ?case by simp
qed

lemma line_loop_first_pass:
  "[] \<notin> set ls \<Longrightarrow> \<exists>t. line_loop False ls s = Some t"
proof (induction ls arbitrary: s)
  case Nil
  then show ?case by simp
next
  case (Cons l ls)
  then have "l \<noteq> []" by auto
  from do_line_first_pass [OF this] obtain s1 where "do_line False s l = Some s1" by blast
  then show ?case using Cons by auto
qed

lemma line_loop_label_frame:
  "line_loop sp ls s = Some t \<Longrightarrow> \<forall>l \<in> set ls. declared l \<noteq> Some n \<Longrightarrow> label t n = label s n"
proof (induction ls arbitrary: s)
  case Nil
  then show ?case by simp
next
  case (Cons l ls)
  then obtain s1 where a: "do_line sp s l = Some s1" and b: "line_loop sp ls s1 = Some t"
    by (auto split: option.splits)
  have "label s1 n = label s n"
    using do_line_label [OF a] Cons.prems(2) by (auto split: option.splits)
  with Cons.IH [OF b] Cons.prems(2) show ?case by simp
qed

lemma line_loop_defined_mono:
  "line_loop sp ls s = Some t \<Longrightarrow> label s n \<noteq> INVALID \<Longrightarrow> label t n \<noteq> INVALID"
proof (induction ls arbitrary: s)
  case Nil
  then show ?case by simp
next
  case (Cons l ls)
  then obtain s1 where a: "do_line sp s l = Some s1" and b: "line_loop sp ls s1 = Some t"
    by (auto split: option.splits)
  have "label s1 n \<noteq> INVALID"
    using do_line_label [OF a] Cons.prems(2) by (auto simp: ucast_pc_valid split: option.splits)
  with Cons.IH [OF b] show ?case by simp
qed

subsection \<open>The second pass follows the first\<close>

lemma find_in_set: "find P xs = Some x \<Longrightarrow> x \<in> set xs"
  by (induction xs) (auto split: if_splits)

lemma token_LAB_all: "list_all (\<lambda>(n, c, t). t = LAB \<longrightarrow> c \<noteq> ORG \<and> c < ORG) token"
  by (simp add: token_def ORG_def)

lemma token_LAB: "find P token = Some (n, c, LAB) \<Longrightarrow> c \<noteq> ORG \<and> c < ORG"
  using token_LAB_all find_in_set [of P token "(n, c, LAB)"] unfolding list_all_iff by fastforce

lemma case_MNEMONIC_sim:
  assumes "optype v = Some LAB \<longrightarrow> opcode v \<noteq> ORG"
  shows "case case_MNEMONIC False p v s1 of
     Next v1 t1 \<Rightarrow>
       (\<exists>t2. case_MNEMONIC True p v s2 = Next v1 t2 \<and> pc t1 = pc s1 \<and> pc t2 = pc s2
            \<and> label t1 = label s1 \<and> label t2 = label s2)
       \<and> (optype v1 = Some LAB \<longrightarrow> opcode v1 \<noteq> ORG)
   | Print_listing v1 t1 \<Rightarrow> v1 = v \<and> t1 = s1 \<and> case_MNEMONIC True p v s2 = Print_listing v s2
   | Syntax_error m v1 t1 \<Rightarrow> True
   | Out_of_bounds \<Rightarrow> True"
  using assms by (auto simp: case_MNEMONIC_def Let_def dest: token_LAB split: option.splits)

lemma case_OPERAND_sim:
  assumes "pc s1 = pc s2"
    and "\<forall>n. label s1 n \<noteq> INVALID \<longrightarrow> label s2 n \<noteq> INVALID"
    and "optype v = Some LAB \<longrightarrow> opcode v \<noteq> ORG"
    and "parser_state v = OPERAND"
  shows "case case_OPERAND False p v s1 of
     Next v1 t1 \<Rightarrow>
       (\<exists>v2 t2. case_OPERAND True p v s2 = Next v2 t2 \<and> pc t1 = pc t2
            \<and> label t1 = label s1 \<and> label t2 = label s2
            \<and> (v2 = v1 \<and> (optype v1 = Some LAB \<longrightarrow> opcode v1 \<noteq> ORG)
               \<or> parser_state v2 = COMMENT \<and> opcode v2 = opcode v1 \<and> opcode v1 \<noteq> ORG
                 \<and> (parser_state v1 = OPERAND \<or> parser_state v1 = COMMENT)))
   | Print_listing v1 t1 \<Rightarrow> False
   | Syntax_error m v1 t1 \<Rightarrow> True
   | Out_of_bounds \<Rightarrow> True"
proof (cases "starts p (CHR ''$'')")
  case True
  show ?thesis
  proof (cases "optype v = Some LAB \<and> parse_label (tl p) 10 4 9999 \<noteq> INVALID")
    case False
    then show ?thesis using True by (auto simp: case_OPERAND_def Let_def)
  next
    case ok: True
    then have ix: "unat (parse_label (tl p) 10 4 9999) < 10000" by (simp add: label_index)
    have org: "opcode v \<noteq> ORG" using ok assms(3) by simp
    show ?thesis
    proof (cases "label s2 (unat (parse_label (tl p) 10 4 9999)) = INVALID")
      case True
      then have "label s1 (unat (parse_label (tl p) 10 4 9999)) = INVALID"
        using assms(2) by blast
      then show ?thesis using True \<open>starts p (CHR ''$'')\<close> ok ix assms(1,4) org
        by (simp add: case_OPERAND_def Let_def)
    next
      case False
      then show ?thesis using \<open>starts p (CHR ''$'')\<close> ok ix assms(1,4) org
        by (simp add: case_OPERAND_def Let_def set_operand_def)
    qed
  qed
next
  case False
  then show ?thesis using assms(1,3,4)
    by (auto simp: case_OPERAND_def Let_def set_operand_def split: option.splits)
qed


lemma switch_sim:
  assumes "pc s1 = pc s2"
    and "\<forall>n. label s1 n \<noteq> INVALID \<longrightarrow> label s2 n \<noteq> INVALID"
    and "optype v = Some LAB \<longrightarrow> opcode v \<noteq> ORG"
  shows "case switch False p v s1 of
     Next v1 t1 \<Rightarrow>
       (\<exists>v2 t2. switch True p v s2 = Next v2 t2 \<and> pc t1 = pc t2
            \<and> (v2 = v1 \<and> (optype v1 = Some LAB \<longrightarrow> opcode v1 \<noteq> ORG)
                 \<and> (\<forall>n. label t1 n \<noteq> INVALID \<longrightarrow> label t2 n \<noteq> INVALID)
               \<or> parser_state v2 = COMMENT \<and> opcode v2 = opcode v1 \<and> opcode v1 \<noteq> ORG
                 \<and> (parser_state v1 = OPERAND \<or> parser_state v1 = COMMENT)))
   | Print_listing v1 t1 \<Rightarrow> (\<exists>t2. switch True p v s2 = Print_listing v1 t2 \<and> pc t1 = pc t2)
   | Syntax_error m v1 t1 \<Rightarrow> True
   | Out_of_bounds \<Rightarrow> True"
proof (cases "parser_state v")
  case LABEL
  show ?thesis
  proof (cases "starts p (CHR ''$'')")
    case True
    then show ?thesis using LABEL assms
      by (auto simp: switch_def case_LABEL_def Let_def INVALID_index label_index)
  next
    case False
    then show ?thesis using LABEL assms(1,2) case_MNEMONIC_sim [OF assms(3), where p = p and ?s1.0 = s1 and ?s2.0 = s2]
      by (auto simp: switch_def case_LABEL_def split: outcome.splits)
  qed
next
  case MNEMONIC
  then show ?thesis using assms(1,2) case_MNEMONIC_sim [OF assms(3), where p = p and ?s1.0 = s1 and ?s2.0 = s2]
    by (auto simp: switch_def split: outcome.splits)
next
  case OPERAND
  then show ?thesis using assms(2) case_OPERAND_sim [OF assms OPERAND, where p = p]
    by (auto simp: switch_def split: outcome.splits)
next
  case COMMENT
  then show ?thesis using assms by (simp add: switch_def)
qed

lemma case_OPERAND_pc:
  "case_OPERAND sp p v s = Next v' s' \<Longrightarrow> opcode v \<noteq> ORG \<Longrightarrow> pc s' = pc s"
  by (auto simp: case_OPERAND_def set_operand_def Let_def split: if_splits option.splits)

lemma tokens_loop_tail1:
  assumes "parser_state v = OPERAND \<or> parser_state v = COMMENT" and "opcode v \<noteq> ORG"
    and "tokens_loop sp ps v s = r" and "r = Next v' s' \<or> r = Print_listing v' s'"
  shows "pc s' = pc s \<and> (parser_state v' = OPERAND \<or> parser_state v' = COMMENT)
           \<and> opcode v' = opcode v"
  using assms
proof (induction ps arbitrary: v s)
  case Nil
  then show ?case by auto
next
  case (Cons p ps)
  show ?case
  proof (cases "parser_state v = COMMENT")
    case True
    then show ?thesis using Cons.prems by (auto simp: switch_def)
  next
    case False
    then have st: "parser_state v = OPERAND" using Cons.prems(1) by simp
    then have sw: "switch sp p v s = case_OPERAND sp p v s" by (simp add: switch_def)
    show ?thesis
    proof (cases "case_OPERAND sp p v s")
      case (Next v1 s1)
      from case_OPERAND_Next [OF Next st] case_OPERAND_pc [OF Next Cons.prems(2)]
      have a: "parser_state v1 = OPERAND \<or> parser_state v1 = COMMENT"
        and b: "opcode v1 = opcode v" and c: "pc s1 = pc s" by auto
      have "tokens_loop sp ps v1 s1 = r" using Cons.prems(3) sw Next by simp
      from Cons.IH [OF a _ this Cons.prems(4)] b c Cons.prems(2) show ?thesis by simp
    next
      case (Print_listing v1 s1)
      then show ?thesis using st
        by (auto simp: case_OPERAND_def set_operand_def Let_def split: if_splits option.splits)
    next
      case (Syntax_error m v1 s1)
      then show ?thesis using Cons.prems(3,4) sw by auto
    next
      case Out_of_bounds
      then show ?thesis using Cons.prems(3,4) sw by auto
    qed
  qed
qed

lemma tokens_loop_COMMENT:
  "parser_state v = COMMENT \<Longrightarrow>
     tokens_loop sp ps v s = (if ps = [] then Next v s else Print_listing v s)"
  by (cases ps) (auto simp: switch_def)

lemma finish_line_clean:
  assumes "finish_line r = Some t" and "out_state r = Some s'"
    and "syntax_error t = syntax_error s'"
  shows "\<exists>v. (r = Next v s' \<or> r = Print_listing v s') \<and> t = print_listing v s'"
  using assms by (cases r) auto

lemma tokens_loop_sim:
  assumes "finish_line (tokens_loop False ps v s1) = Some t1"
    and "syntax_error t1 = syntax_error s1"
    and "pc s1 = pc s2"
    and "\<forall>n. label s1 n \<noteq> INVALID \<longrightarrow> label s2 n \<noteq> INVALID"
    and "optype v = Some LAB \<longrightarrow> opcode v \<noteq> ORG"
  shows "\<exists>t2. finish_line (tokens_loop True ps v s2) = Some t2 \<and> pc t2 = pc t1"
  using assms
proof (induction ps arbitrary: v s1 s2)
  case Nil
  then show ?case by (auto simp: print_listing_def)
next
  case (Cons p ps)
  note sim = switch_sim [OF Cons.prems(3,4,5), of p]
  show ?case
  proof (cases "switch False p v s1")
    case (Next v1 u1)
    have se: "syntax_error u1 = syntax_error s1"
      using switch_syntax_error [of False p v s1 u1] Next by simp
    have fl: "finish_line (tokens_loop False ps v1 u1) = Some t1"
      using Cons.prems(1) Next by simp
    from sim Next obtain v2 u2 where sw2: "switch True p v s2 = Next v2 u2"
      and pc: "pc u1 = pc u2"
      and alt: "v2 = v1 \<and> (optype v1 = Some LAB \<longrightarrow> opcode v1 \<noteq> ORG)
                 \<and> (\<forall>n. label u1 n \<noteq> INVALID \<longrightarrow> label u2 n \<noteq> INVALID)
               \<or> parser_state v2 = COMMENT \<and> opcode v2 = opcode v1 \<and> opcode v1 \<noteq> ORG
                 \<and> (parser_state v1 = OPERAND \<or> parser_state v1 = COMMENT)"
      by auto
    from alt show ?thesis
    proof
      assume a: "v2 = v1 \<and> (optype v1 = Some LAB \<longrightarrow> opcode v1 \<noteq> ORG)
                 \<and> (\<forall>n. label u1 n \<noteq> INVALID \<longrightarrow> label u2 n \<noteq> INVALID)"
      have "\<exists>t2. finish_line (tokens_loop True ps v1 u2) = Some t2 \<and> pc t2 = pc t1"
        using Cons.IH [OF fl _ pc] a se Cons.prems(2) by simp
      then show ?thesis using sw2 a by simp
    next
      assume b: "parser_state v2 = COMMENT \<and> opcode v2 = opcode v1 \<and> opcode v1 \<noteq> ORG
                 \<and> (parser_state v1 = OPERAND \<or> parser_state v1 = COMMENT)"
      obtain w1 where o1: "out_state (tokens_loop False ps v1 u1) = Some w1"
        using fl finish_line_out by blast
      have "syntax_error w1 = syntax_error u1" using tokens_loop_syntax_error [OF o1] .
      then have "syntax_error t1 = syntax_error w1" using se Cons.prems(2) by simp
      from finish_line_clean [OF fl o1 this] obtain v1' where
        r1: "tokens_loop False ps v1 u1 = Next v1' w1 \<or> tokens_loop False ps v1 u1 = Print_listing v1' w1"
        and t1: "t1 = print_listing v1' w1" by blast
      from tokens_loop_tail1 [OF _ _ refl r1] b
      have c: "pc w1 = pc u1 \<and> (parser_state v1' = OPERAND \<or> parser_state v1' = COMMENT)
                 \<and> opcode v1' = opcode v1" by simp
      have "finish_line (tokens_loop True ps v2 u2) = Some (print_listing v2 u2)"
        using b by (simp add: tokens_loop_COMMENT)
      moreover have "pc (print_listing v2 u2) = pc t1"
        using b c t1 pc by (auto simp: print_listing_def)
      ultimately show ?thesis using sw2 by simp
    qed
  next
    case (Print_listing v1 u1)
    then show ?thesis using sim Cons.prems(1) by (auto simp: print_listing_def)
  next
    case (Syntax_error m v1 u1)
    then have "syntax_error u1 = syntax_error s1"
      using switch_syntax_error [of False p v s1 u1] by simp
    then show ?thesis using Syntax_error Cons.prems(1,2) by auto
  next
    case Out_of_bounds
    then show ?thesis using Cons.prems(1) by simp
  qed
qed

lemma do_line_sim:
  assumes "do_line False s1 l = Some t1"
    and "syntax_error t1 = syntax_error s1"
    and "pc s1 = pc s2"
    and "\<forall>n. label s1 n \<noteq> INVALID \<longrightarrow> label s2 n \<noteq> INVALID"
  shows "\<exists>t2. do_line True s2 l = Some t2 \<and> pc t2 = pc t1
           \<and> (\<forall>n. label t1 n \<noteq> INVALID \<longrightarrow> label t2 n \<noteq> INVALID)"
proof -
  from do_line_Some [OF assms(1)] have ne: "l \<noteq> []"
    and fl: "finish_line (tokens_loop False (strtok_all l) init_vars s1) = Some t1" by auto
  have "optype init_vars = Some LAB \<longrightarrow> opcode init_vars \<noteq> ORG" by (simp add: init_vars_def)
  from tokens_loop_sim [OF fl assms(2,3,4) this]
  obtain t2 where f2: "finish_line (tokens_loop True (strtok_all l) init_vars s2) = Some t2"
    and pc: "pc t2 = pc t1" by blast
  have d2: "do_line True s2 l = Some t2" using ne f2 by (cases l) (auto simp: do_line_def)
  have "\<forall>n. label t1 n \<noteq> INVALID \<longrightarrow> label t2 n \<noteq> INVALID"
    using do_line_label [OF assms(1)] do_line_label [OF d2] assms(3,4)
    by (auto split: option.splits)
  then show ?thesis using d2 pc by blast
qed

lemma line_loop_sim:
  assumes "line_loop False ls s1 = Some t1"
    and "syntax_error t1 = syntax_error s1"
    and "pc s1 = pc s2"
    and "\<forall>n. label s1 n \<noteq> INVALID \<longrightarrow> label s2 n \<noteq> INVALID"
  shows "\<exists>t2. line_loop True ls s2 = Some t2 \<and> pc t2 = pc t1
           \<and> (\<forall>n. label t1 n \<noteq> INVALID \<longrightarrow> label t2 n \<noteq> INVALID)"
  using assms
proof (induction ls arbitrary: s1 s2)
  case Nil
  then show ?case by simp
next
  case (Cons l ls)
  from Cons.prems(1) obtain u1 where a: "do_line False s1 l = Some u1"
    and b: "line_loop False ls u1 = Some t1" by (auto split: option.splits)
  have "syntax_error s1 \<le> syntax_error u1" using do_line_syntax_error [OF a] by simp
  moreover have "syntax_error u1 \<le> syntax_error t1" using line_loop_syntax_error_mono [OF b] .
  ultimately have e1: "syntax_error u1 = syntax_error s1" and e2: "syntax_error t1 = syntax_error u1"
    using Cons.prems(2) by auto
  from do_line_sim [OF a e1 Cons.prems(3,4)] obtain u2 where
    c: "do_line True s2 l = Some u2" and pc: "pc u2 = pc u1"
    and d: "\<forall>n. label u1 n \<noteq> INVALID \<longrightarrow> label u2 n \<noteq> INVALID" by blast
  from Cons.IH [OF b e2 pc [symmetric] d] c show ?case by simp
qed

subsection \<open>A line with a label operand\<close>

lemma case_MNEMONIC_found:
  assumes "\<not> starts p (CHR '';'')" and "find (\<lambda>(n, c, t). take 3 p = n) token = Some (n, c, t)"
  shows "case_MNEMONIC sp p v s
      = Next (v\<lparr>name := Some n, opcode := c, optype := Some t, parser_state := OPERAND\<rparr>)
             (if c < ORG then s\<lparr>rom := (rom s)(pc s := push_bit 8 c)\<rparr> else s)"
  unfolding case_MNEMONIC_def Let_def using assms by simp

lemma case_MNEMONIC_unknown:
  assumes "\<not> starts p (CHR '';'')" and "find (\<lambda>(n, c, t). take 3 p = n) token = None"
    and "name v = None"
  shows "case_MNEMONIC False p v s = Syntax_error Unexpected_token v s"
  unfolding case_MNEMONIC_def Let_def using assms by simp

lemma find_token_name:
  "find (\<lambda>(n, c, t). take 3 p = n) token = Some (n, c, t) \<Longrightarrow> n = take 3 p"
  by (auto simp: find_Some_iff)

lemma case_OPERAND_marker_first:
  assumes "starts r (CHR ''$'')" and "optype v \<noteq> Some LAB"
  shows "case_OPERAND False r v s = Syntax_error Incorrect_operand v s"
  using assms by (simp add: case_OPERAND_def)

lemma case_OPERAND_resolved:
  assumes "starts r (CHR ''$'')" and "parse_label (tl r) 10 4 9999 \<noteq> INVALID"
    and "label s (unat (parse_label (tl r) 10 4 9999)) \<noteq> INVALID"
  shows "case_OPERAND True r v s
     = set_operand (v\<lparr>olnum := parse_label (tl r) 10 4 9999,
                       operand := label s (unat (parse_label (tl r) 10 4 9999))\<rparr>) s"
  using assms by (simp add: case_OPERAND_def Let_def label_index)

text \<open>
  The mnemonic token \<open>mt\<close> is looked at by \<^verbatim>\<open>case MNEMONIC\<close>: the parser is in that
  state, or in the state \<open>LABEL\<close> with a token that has no marker.
\<close>

lemma instruction_first_pass:
  assumes "parser_state v = MNEMONIC \<or> parser_state v = LABEL \<and> \<not> starts mt (CHR ''$'')"
    and "name v = None"
    and "\<not> starts mt (CHR '';'')" and "starts r (CHR ''$'')"
    and "finish_line (tokens_loop False (mt # r # rest) v s) = Some t"
    and "syntax_error t = syntax_error s"
  shows "\<exists>c. find (\<lambda>(n, c, t). take 3 mt = n) token = Some (take 3 mt, c, LAB)"
proof -
  have sw: "switch False mt v s = case_MNEMONIC False mt v s"
    using assms(1) by (auto simp: switch_def case_LABEL_def)
  show ?thesis
  proof (cases "find (\<lambda>(n, c, t). take 3 mt = n) token")
    case None
    have "tokens_loop False (mt # r # rest) v s = Syntax_error Unexpected_token v s"
      using sw case_MNEMONIC_unknown [OF assms(3) None assms(2)] by simp
    then show ?thesis using assms(5,6) by auto
  next
    case (Some x)
    obtain n c ty where x: "x = (n, c, ty)" by (cases x)
    have n: "n = take 3 mt" using Some x find_token_name by blast
    show ?thesis
    proof (cases "ty = LAB")
      case True
      then show ?thesis using Some x n by simp
    next
      case False
      define v1 where "v1 = v\<lparr>name := Some n, opcode := c, optype := Some ty, parser_state := OPERAND\<rparr>"
      define s1 where "s1 = (if c < ORG then s\<lparr>rom := (rom s)(pc s := push_bit 8 c)\<rparr> else s)"
      have a: "switch False mt v s = Next v1 s1"
        using sw case_MNEMONIC_found [OF assms(3), of n c ty False v s] Some x
        by (simp add: v1_def s1_def)
      have "switch False r v1 s1 = Syntax_error Incorrect_operand v1 s1"
        using case_OPERAND_marker_first [OF assms(4), of v1 s1] False
        by (simp add: switch_def v1_def)
      then have "tokens_loop False (mt # r # rest) v s = Syntax_error Incorrect_operand v1 s1"
        using a by simp
      moreover have "syntax_error s1 = syntax_error s" by (simp add: s1_def)
      ultimately show ?thesis using assms(5,6) by auto
    qed
  qed
qed

lemma instruction_second_pass:
  assumes "parser_state v = MNEMONIC \<or> parser_state v = LABEL \<and> \<not> starts mt (CHR ''$'')"
    and "\<not> starts mt (CHR '';'')" and "starts r (CHR ''$'')"
    and "find (\<lambda>(n, c, t). take 3 mt = n) token = Some (n, c, LAB)"
    and "parse_label (tl r) 10 4 9999 \<noteq> INVALID"
    and "label s (unat (parse_label (tl r) 10 4 9999)) \<noteq> INVALID"
  shows "\<exists>t. finish_line (tokens_loop True (mt # r # rest) v s) = Some t
           \<and> rom t (pc s) = push_bit 8 c OR label s (unat (parse_label (tl r) 10 4 9999))
           \<and> other_error t = other_error s"
proof -
  have c: "c < ORG" using token_LAB [OF assms(4)] by simp
  define v1 where "v1 = v\<lparr>name := Some n, opcode := c, optype := Some LAB, parser_state := OPERAND\<rparr>"
  define s1 where "s1 = s\<lparr>rom := (rom s)(pc s := push_bit 8 c)\<rparr>"
  define v2 where "v2 = v1\<lparr>olnum := parse_label (tl r) 10 4 9999,
                       operand := label s (unat (parse_label (tl r) 10 4 9999)),
                       parser_state := COMMENT\<rparr>"
  define s2 where "s2 = s1\<lparr>rom := (rom s1)(pc s1 := rom s1 (pc s1)
                               OR label s (unat (parse_label (tl r) 10 4 9999)))\<rparr>"
  have "switch True mt v s = case_MNEMONIC True mt v s"
    using assms(1) by (auto simp: switch_def case_LABEL_def)
  then have a: "switch True mt v s = Next v1 s1"
    using case_MNEMONIC_found [OF assms(2,4), of True v s] c by (simp add: v1_def s1_def)
  have l1: "label s1 = label s" by (simp add: s1_def)
  have "switch True r v1 s1 = case_OPERAND True r v1 s1" by (simp add: switch_def v1_def)
  then have b: "switch True r v1 s1 = Next v2 s2"
    using case_OPERAND_resolved [OF assms(3,5), of s1 v1] assms(6) c l1
    by (simp add: set_operand_def v2_def s2_def v1_def)
  have st: "parser_state v2 = COMMENT" by (simp add: v2_def)
  have "tokens_loop True (mt # r # rest) v s = (if rest = [] then Next v2 s2 else Print_listing v2 s2)"
    using a b tokens_loop_COMMENT [OF st, of True rest s2] by simp
  then have "finish_line (tokens_loop True (mt # r # rest) v s) = Some (print_listing v2 s2)"
    by simp
  moreover have "rom (print_listing v2 s2) (pc s)
       = push_bit 8 c OR label s (unat (parse_label (tl r) 10 4 9999))"
    by (simp add: print_listing_def s2_def s1_def)
  moreover have "other_error (print_listing v2 s2) = other_error s"
    by (simp add: print_listing_def s2_def s1_def)
  ultimately show ?thesis by simp
qed

lemma case_LABEL_first_pass:
  assumes "starts p (CHR ''$'')"
  shows "switch False p init_vars s =
     (if parse_label (tl p) 10 4 9999 = INVALID
      then Syntax_error Incorrect_label (init_vars\<lparr>lnum := INVALID\<rparr>) s
      else Next (init_vars\<lparr>lnum := parse_label (tl p) 10 4 9999, parser_state := MNEMONIC\<rparr>)
                (s\<lparr>label := (label s)(unat (parse_label (tl p) 10 4 9999) := ucast (pc s))\<rparr>))"
  using assms by (simp add: switch_def case_LABEL_def Let_def init_vars_def label_index)

lemma case_LABEL_second_pass:
  assumes "starts p (CHR ''$'')" and "parse_label (tl p) 10 4 9999 \<noteq> INVALID"
  shows "\<exists>s'. switch True p init_vars s =
       Next (init_vars\<lparr>lnum := parse_label (tl p) 10 4 9999, parser_state := MNEMONIC\<rparr>) s'
     \<and> label s' = (label s)(unat (parse_label (tl p) 10 4 9999) := ucast (pc s))
     \<and> pc s' = pc s \<and> rom s' = rom s \<and> other_error s' = other_error s"
  using assms by (simp add: switch_def case_LABEL_def Let_def init_vars_def label_index)

lemma do_line_reference:
  assumes "do_line False a1 l = Some b1" and "syntax_error b1 = syntax_error a1"
    and "referenced l = Some n" and "declared l \<noteq> Some n" and "label a2 n \<noteq> INVALID"
  shows "\<exists>b2 mt r c. do_line True a2 l = Some b2 \<and> instruction_tokens l = Some (mt, r)
           \<and> (take 3 mt, c, LAB) \<in> set token
           \<and> rom b2 (pc a2) = push_bit 8 c OR label a2 n
           \<and> other_error b2 = other_error a2"
proof -
  from do_line_Some [OF assms(1)] have ne: "l \<noteq> []"
    and fl: "finish_line (tokens_loop False (strtok_all l) init_vars a1) = Some b1" by auto
  have dl: "\<And>t. finish_line (tokens_loop True (strtok_all l) init_vars a2) = Some t
              \<Longrightarrow> do_line True a2 l = Some t"
    using ne by (cases l) (auto simp: do_line_def)
  from assms(3) obtain mt r where it: "instruction_tokens l = Some (mt, r)"
    and r: "starts r (CHR ''$'')" and rv: "parse_label (tl r) 10 4 9999 \<noteq> INVALID"
    and n: "n = unat (parse_label (tl r) 10 4 9999)"
    by (auto simp: referenced_def split: option.splits if_splits)
  from it obtain p ps rest where toks: "strtok_all l = p # ps"
    and ins: "(if starts p (CHR ''$'') then ps else p # ps) = mt # r # rest"
    and mt: "\<not> starts mt (CHR '';'')"
    by (auto simp: instruction_tokens_def split: list.splits if_splits)
  have lab: "label a2 (unat (parse_label (tl r) 10 4 9999)) \<noteq> INVALID" using assms(5) n by simp
  show ?thesis
  proof (cases "starts p (CHR ''$'')")
    case False
    then have t: "strtok_all l = mt # r # rest" using toks ins by simp
    have mode: "parser_state init_vars = MNEMONIC
                 \<or> parser_state init_vars = LABEL \<and> \<not> starts mt (CHR ''$'')"
      using False toks t by (simp add: init_vars_def)
    have nm: "name init_vars = None" by (simp add: init_vars_def)
    from instruction_first_pass [OF mode nm mt r fl [unfolded t] assms(2)]
    obtain c where f: "find (\<lambda>(n, c, t). take 3 mt = n) token = Some (take 3 mt, c, LAB)" by blast
    from instruction_second_pass [OF mode mt r f rv lab, of rest]
    obtain b2 where "finish_line (tokens_loop True (mt # r # rest) init_vars a2) = Some b2"
      and "rom b2 (pc a2) = push_bit 8 c OR label a2 n" and "other_error b2 = other_error a2"
      using n by auto
    then show ?thesis using dl [of b2] t it find_in_set [OF f] by auto
  next
    case True
    then have ps: "ps = mt # r # rest" using ins by simp
    have pv: "parse_label (tl p) 10 4 9999 \<noteq> INVALID"
    proof
      assume "parse_label (tl p) 10 4 9999 = INVALID"
      then have "tokens_loop False (strtok_all l) init_vars a1
                   = Syntax_error Incorrect_label (init_vars\<lparr>lnum := INVALID\<rparr>) a1"
        using toks case_LABEL_first_pass [OF True, of a1] by simp
      then show False using fl assms(2) by auto
    qed
    define v1 where "v1 = init_vars\<lparr>lnum := parse_label (tl p) 10 4 9999, parser_state := MNEMONIC\<rparr>"
    define u1 where "u1 = a1\<lparr>label := (label a1)(unat (parse_label (tl p) 10 4 9999) := ucast (pc a1))\<rparr>"
    have "tokens_loop False (strtok_all l) init_vars a1 = tokens_loop False (mt # r # rest) v1 u1"
      using toks ps case_LABEL_first_pass [OF True, of a1] pv by (simp add: v1_def u1_def)
    then have fl1: "finish_line (tokens_loop False (mt # r # rest) v1 u1) = Some b1"
      using fl by simp
    have se: "syntax_error b1 = syntax_error u1" using assms(2) by (simp add: u1_def)
    have mode: "parser_state v1 = MNEMONIC \<or> parser_state v1 = LABEL \<and> \<not> starts mt (CHR ''$'')"
      by (simp add: v1_def)
    have nm: "name v1 = None" by (simp add: v1_def init_vars_def)
    from instruction_first_pass [OF mode nm mt r fl1 se]
    obtain c where f: "find (\<lambda>(n, c, t). take 3 mt = n) token = Some (take 3 mt, c, LAB)" by blast
    from case_LABEL_second_pass [OF True pv, of a2] obtain u2 where
      sw2: "switch True p init_vars a2 = Next v1 u2"
      and l2: "label u2 = (label a2)(unat (parse_label (tl p) 10 4 9999) := ucast (pc a2))"
      and fr: "pc u2 = pc a2" "rom u2 = rom a2" "other_error u2 = other_error a2"
      by (auto simp: v1_def)
    have "declared l = Some (unat (parse_label (tl p) 10 4 9999))"
      using toks True pv by (simp add: declared_def)
    then have "unat (parse_label (tl p) 10 4 9999) \<noteq> n" using assms(4) by auto
    then have lab2: "label u2 (unat (parse_label (tl r) 10 4 9999)) \<noteq> INVALID"
      using l2 lab n by simp
    from instruction_second_pass [OF mode mt r f rv lab2, of rest]
    obtain b2 where "finish_line (tokens_loop True (mt # r # rest) v1 u2) = Some b2"
      and "rom b2 (pc u2) = push_bit 8 c OR label u2 (unat (parse_label (tl r) 10 4 9999))"
      and "other_error b2 = other_error u2" by auto
    moreover have "label u2 (unat (parse_label (tl r) 10 4 9999)) = label a2 n"
      using l2 n \<open>unat (parse_label (tl p) 10 4 9999) \<noteq> n\<close> by simp
    moreover have "tokens_loop True (strtok_all l) init_vars a2 = tokens_loop True (mt # r # rest) v1 u2"
      using toks ps sw2 by simp
    ultimately show ?thesis using dl [of b2] it find_in_set [OF f] fr by auto
  qed
qed

lemma init_state_simps:
  "label (init_state rom0) n = INVALID" "pc (init_state rom0) = 0"
  "syntax_error (init_state rom0) = 0"
  by (simp_all add: init_state_def)

lemma token_all:
  "list_all (\<lambda>(m, c, t). \<not> starts m (CHR ''$'') \<and> \<not> starts m (CHR '';'')
       \<and> find (\<lambda>(n, c, t). take 3 m = n) token = Some (m, c, t)
       \<and> (c < ORG \<longrightarrow> drop_bit 8 (push_bit 8 c) = c \<and> c < 16 \<and> push_bit 8 c AND 0xFF = 0)) token"
  by (simp add: token_def ORG_def)

lemma token_ok:
  assumes "(m, c, t) \<in> set token"
  shows "\<not> starts m (CHR ''$'') \<and> \<not> starts m (CHR '';'')
       \<and> find (\<lambda>(n, c, t). take 3 m = n) token = Some (m, c, t)
       \<and> (c < ORG \<longrightarrow> drop_bit 8 (push_bit 8 c) = c \<and> c < 16 \<and> push_bit 8 c AND 0xFF = 0)"
  using token_all assms unfolding list_all_iff by fastforce

subsection \<open>Decimal label texts\<close>

lemma digit_val_dec:
  "(case digit_val c of None \<Rightarrow> False | Some d \<Rightarrow> d < 10) = is_dec_digit c"
  by (auto simp: digit_val_def is_dec_digit_def Let_def)

lemma digit_val_dec_value:
  "is_dec_digit c \<Longrightarrow> digit_val c = Some (of_char c - 48)"
  by (auto simp: digit_val_def is_dec_digit_def Let_def)

lemma strtoul_digits_10:
  "strtoul_digits 10 s acc k =
     (foldl (\<lambda>a c. a * 10 + (of_char c - 48)) acc (takeWhile is_dec_digit s),
      k + length (takeWhile is_dec_digit s))"
proof (induction s arbitrary: acc k)
  case Nil
  then show ?case by simp
next
  case (Cons c cs)
  show ?case
  proof (cases "is_dec_digit c")
    case True
    then show ?thesis using Cons digit_val_dec_value [OF True] digit_val_dec [of c] by simp
  next
    case False
    then show ?thesis using digit_val_dec [of c] by (auto split: option.splits)
  qed
qed

lemma foldl_dec_bound:
  "list_all is_dec_digit ds \<Longrightarrow>
     foldl (\<lambda>a c. a * 10 + (of_char c - 48)) acc ds < ((acc :: nat) + 1) * 10 ^ length ds"
proof (induction ds arbitrary: acc)
  case Nil
  then show ?case by simp
next
  case (Cons c cs)
  then have d: "(of_char c :: nat) - 48 \<le> 9" by (auto simp: is_dec_digit_def)
  have "foldl (\<lambda>a c. a * 10 + (of_char c - 48)) (acc * 10 + (of_char c - 48)) cs
          < (acc * 10 + (of_char c - 48) + 1) * 10 ^ length cs"
    using Cons by simp
  also have "\<dots> \<le> ((acc + 1) * 10) * 10 ^ length cs"
    using d by (intro mult_right_mono) auto
  finally show ?case by (simp add: algebra_simps)
qed

lemma decimal_value_bound:
  "list_all is_dec_digit ds \<Longrightarrow> length ds \<le> 4 \<Longrightarrow> decimal_value ds \<le> 9999"
proof -
  assume a: "list_all is_dec_digit ds" and b: "length ds \<le> 4"
  have "decimal_value ds < 10 ^ length ds"
    using foldl_dec_bound [OF a, of 0] by (simp add: decimal_value_def)
  also have "(10::nat) ^ length ds \<le> 10 ^ 4" using b by (intro power_increasing) auto
  finally show ?thesis by simp
qed

lemma takeWhile_all: "takeWhile P xs = xs \<longleftrightarrow> list_all P xs"
  by (induction xs) auto

lemma length_takeWhile_all: "length (takeWhile P xs) = length xs \<longleftrightarrow> list_all P xs"
  by (induction xs) (auto simp: le_Suc_eq dest: length_takeWhile_le [THEN le_trans])

lemma of_nat_small:
  assumes "v \<le> 9999"
  shows "(of_nat v :: unsigned) \<le> 9999 \<and> (of_nat v :: unsigned) \<noteq> INVALID"
proof -
  have "unat (of_nat v :: unsigned) = v" using assms by (simp add: unat_of_nat)
  then have a: "(of_nat v :: unsigned) \<le> 9999" using assms by (simp add: word_le_nat_alt)
  have "(of_nat v :: unsigned) \<noteq> INVALID"
  proof
    assume "(of_nat v :: unsigned) = INVALID"
    then have "unat (of_nat v :: unsigned) = unat INVALID" by simp
    then show False using \<open>unat (of_nat v :: unsigned) = v\<close> assms by (simp add: unat_INVALID)
  qed
  with a show ?thesis by simp
qed

lemma of_nat_negated:
  assumes "0 < v" and "v \<le> 9999"
  shows "\<not> (of_nat ((2 ^ 64 - v) mod 2 ^ 64) :: unsigned) \<le> 9999"
proof -
  have e: "(2 ^ 64 - v) mod 2 ^ 64 = (2 ^ 64 - v :: nat)" using assms by simp
  have A: "(2 ^ 64 - v :: nat) = (4294967296 - v) + 4294967295 * 4294967296" using assms by simp
  have B: "((4294967296 - v) + 4294967295 * 4294967296) mod 4294967296
             = (4294967296 - v) mod (4294967296 :: nat)" by (rule mod_mult_self1)
  have C: "(4294967296 - v) mod (4294967296 :: nat) = 4294967296 - v" using assms by simp
  have D: "(2 ^ 64 - v) mod 4294967296 = (4294967296 - v :: nat)" by (simp only: A B C)
  have E: "unat (of_nat (2 ^ 64 - v) :: unsigned) = 4294967296 - v"
    using D by (simp add: unat_of_nat)
  have F: "\<not> (of_nat (2 ^ 64 - v) :: unsigned) \<le> 9999"
    unfolding word_le_nat_alt E using assms by simp
  show ?thesis unfolding e by (rule F)
qed

lemma sign_length:
  "length s0 = (if starts s0 (CHR ''-'') \<or> starts s0 (CHR ''+'') then 1 else 0)
      + length (if starts s0 (CHR ''-'') \<or> starts s0 (CHR ''+'') then tl s0 else s0)"
  by (cases s0) auto

lemma sign_drop:
  "drop (if starts s0 (CHR ''-'') \<or> starts s0 (CHR ''+'') then 1 else 0) s0
     = (if starts s0 (CHR ''-'') \<or> starts s0 (CHR ''+'') then tl s0 else s0)"
  by (cases s0) auto

lemma length_split:
  "length t = length (takeWhile isspace t)
      + (if starts (dropWhile isspace t) (CHR ''-'') \<or> starts (dropWhile isspace t) (CHR ''+'')
         then 1 else 0)
      + length (label_digits t)"
proof -
  have "length t = length (takeWhile isspace t) + length (dropWhile isspace t)"
    by (metis length_append takeWhile_dropWhile_id)
  moreover have "length (dropWhile isspace t)
     = (if starts (dropWhile isspace t) (CHR ''-'') \<or> starts (dropWhile isspace t) (CHR ''+'')
         then 1 else 0) + length (label_digits t)"
    using sign_length [of "dropWhile isspace t"] by (simp add: label_digits_def Let_def)
  ultimately show ?thesis by simp
qed

lemma strtoul_10:
  "strtoul t 10 =
     (let ds = takeWhile is_dec_digit (label_digits t);
          v = decimal_value ds
      in if ds = [] then (0, 0)
         else (if ULONG_MAX < v then ULONG_MAX
               else if starts (dropWhile isspace t) (CHR ''-'') then (2 ^ 64 - v) mod 2 ^ 64 else v,
               length (takeWhile isspace t)
                + (if starts (dropWhile isspace t) (CHR ''-'') \<or> starts (dropWhile isspace t) (CHR ''+'')
                   then 1 else 0)
                + length ds))"
proof -
  have d: "drop (if starts (dropWhile isspace t) (CHR ''-'') \<or> starts (dropWhile isspace t) (CHR ''+'')
                 then 1 else 0) (dropWhile isspace t) = label_digits t"
    using sign_drop [of "dropWhile isspace t"] by (simp add: label_digits_def Let_def)
  show ?thesis
    unfolding strtoul_def Let_def
    by (simp add: d strtoul_digits_10 decimal_value_def del: One_nat_def)
qed


lemma parse_label_10:
  assumes "t \<noteq> []"
  shows "parse_label t 10 4 9999
           = (if label_text t then of_nat (decimal_value (label_digits t)) else INVALID)"
    and "label_text t \<Longrightarrow> parse_label t 10 4 9999 \<noteq> INVALID"
    and "label_text t \<Longrightarrow> decimal_value (label_digits t) \<le> 9999"
proof -
  define ds where "ds = takeWhile is_dec_digit (label_digits t)"
  define neg where "neg = starts (dropWhile isspace t) (CHR ''-'')"
  define k where "k = length (takeWhile isspace t)
     + (if starts (dropWhile isspace t) (CHR ''-'') \<or> starts (dropWhile isspace t) (CHR ''+'')
        then 1 else 0)"
  have len: "length t = k + length (label_digits t)" using length_split [of t] by (simp add: k_def)
  have st: "strtoul t 10 =
     (if ds = [] then (0, 0)
      else (if ULONG_MAX < decimal_value ds then ULONG_MAX
            else if neg then (2 ^ 64 - decimal_value ds) mod 2 ^ 64 else decimal_value ds,
            k + length ds))"
    unfolding strtoul_10 Let_def ds_def neg_def k_def by simp
  have lt: "label_text t \<longleftrightarrow> label_digits t \<noteq> [] \<and> list_all is_dec_digit (label_digits t)
      \<and> length t \<le> 4 \<and> (neg \<longrightarrow> decimal_value (label_digits t) = 0)"
    by (simp add: label_text_def neg_def)
  have main: "parse_label t 10 4 9999
           = (if label_text t then of_nat (decimal_value (label_digits t)) else INVALID)
        \<and> (label_text t \<longrightarrow> parse_label t 10 4 9999 \<noteq> INVALID
              \<and> decimal_value (label_digits t) \<le> 9999)"
  proof (cases "ds = []")
    case True
    then have "\<not> (label_digits t \<noteq> [] \<and> list_all is_dec_digit (label_digits t))"
      using takeWhile_all [of is_dec_digit "label_digits t"] by (auto simp: ds_def)
    then have "\<not> label_text t" using lt by blast
    moreover have "parse_label t 10 4 9999 = INVALID"
      using True assms by (simp add: parse_label_def st)
    ultimately show ?thesis by simp
  next
    case False
    show ?thesis
    proof (cases "list_all is_dec_digit (label_digits t) \<and> length t \<le> 4")
      case ok: True
      then have dsd: "ds = label_digits t" using takeWhile_all [of is_dec_digit "label_digits t"]
        by (simp add: ds_def)
      have ne: "label_digits t \<noteq> []" using False dsd by simp
      have "length (label_digits t) \<le> 4" using ok len by simp
      then have b: "decimal_value (label_digits t) \<le> 9999" using ok decimal_value_bound by blast
      then have nov: "\<not> ULONG_MAX < decimal_value (label_digits t)" by (simp add: ULONG_MAX_def)
      have w: "k + length ds \<le> 4 \<and> k + length ds = length t" using ok len dsd by simp
      show ?thesis
      proof (cases "neg \<and> decimal_value (label_digits t) \<noteq> 0")
        case True
        then have "\<not> (of_nat ((2 ^ 64 - decimal_value (label_digits t)) mod 2 ^ 64) :: unsigned) \<le> 9999"
          using of_nat_negated [of "decimal_value (label_digits t)"] b by simp
        then have "parse_label t 10 4 9999 = INVALID"
          using False True nov dsd by (simp add: parse_label_def st)
        moreover have "\<not> label_text t" using lt True by blast
        ultimately show ?thesis by simp
      next
        case pos: False
        have "strtoul t 10 = (decimal_value (label_digits t), k + length ds)"
        proof (cases neg)
          case True
          then have "decimal_value (label_digits t) = 0" using pos by simp
          then show ?thesis using ne nov dsd True unfolding st by simp
        next
          case nn: False
          then show ?thesis using ne nov dsd unfolding st by simp
        qed
        then have "parse_label t 10 4 9999 = of_nat (decimal_value (label_digits t))"
          using w of_nat_small [OF b] by (simp add: parse_label_def)
        moreover have "label_text t" using lt ok ne pos by blast
        ultimately show ?thesis using of_nat_small [OF b] b by simp
      qed
    next
      case bad: False
      have "length ds \<le> length (label_digits t)" by (simp add: ds_def length_takeWhile_le)
      moreover have "length ds = length (label_digits t) \<longleftrightarrow> list_all is_dec_digit (label_digits t)"
        using length_takeWhile_all [of is_dec_digit "label_digits t"] by (simp add: ds_def)
      ultimately have "\<not> (k + length ds \<le> 4 \<and> k + length ds = length t)"
        using bad len by auto
      then have "parse_label t 10 4 9999 = INVALID"
        using False by (auto simp: parse_label_def st Let_def)
      moreover have "\<not> label_text t" using lt bad by blast
      ultimately show ?thesis by simp
    qed
  qed
  show "parse_label t 10 4 9999
           = (if label_text t then of_nat (decimal_value (label_digits t)) else INVALID)"
    using main by blast
  show "label_text t \<Longrightarrow> parse_label t 10 4 9999 \<noteq> INVALID" using main by blast
  show "label_text t \<Longrightarrow> decimal_value (label_digits t) \<le> 9999" using main by blast
qed

lemma digits_label_digits:
  assumes "t \<noteq> []" and "list_all is_dec_digit t"
  shows "label_digits t = t"
proof -
  obtain c cs where t: "t = c # cs" using assms(1) by (cases t) auto
  then have d: "is_dec_digit c" using assms(2) by simp
  have "\<not> isspace c \<and> c \<noteq> CHR ''-'' \<and> c \<noteq> CHR ''+''"
    using d by (auto simp: is_dec_digit_def isspace_def)
  then show ?thesis by (simp add: label_digits_def t)
qed

lemma digits_not_minus:
  assumes "t \<noteq> []" and "list_all is_dec_digit t"
  shows "\<not> starts (dropWhile isspace t) (CHR ''-'')"
proof -
  obtain c cs where t: "t = c # cs" using assms(1) by (cases t) auto
  then have d: "is_dec_digit c" using assms(2) by simp
  have "\<not> isspace c \<and> c \<noteq> CHR ''-''"
    using d by (auto simp: is_dec_digit_def isspace_def)
  then show ?thesis by (simp add: t)
qed

lemmas line_defs = declared_def instruction_tokens_def referenced_def

section \<open>The claims that hold\<close>

text \<open>
  Claim C2 (forward references): a label referenced in an operand before its
  declaration is resolved by pass 2 to the label's final declared address, with no
  semantic error, when pass 1 has counted no syntax error.
  The source is \<open>pre @ l # mid @ d # post\<close>: the line \<open>l\<close> refers to the label
  \<open>n\<close>, no line up to and including \<open>l\<close> declares \<open>n\<close>, and \<open>d\<close> is the last
  line that declares it. Then pass 2 reaches \<open>l\<close> in a state \<open>s\<close>, and after \<open>l\<close>
  the word at the address of \<open>l\<close> is the opcode of its mnemonic (a mnemonic of the
  class LABEL) in the bits above the low byte and, in the low byte, the value of
  \<^verbatim>\<open>pc\<close> at which pass 2 reaches \<open>d\<close>, which is also the address that pass 1 left
  in the table; the count of semantic errors is the same before and after \<open>l\<close>.
\<close>

theorem C2_forward_reference:
  assumes "pass False src (init_state rom0) = Some s1" and "syntax_error s1 = 0"
    and "src = pre @ l # mid @ d # post"
    and "referenced l = Some n"
    and "\<forall>x \<in> set pre. declared x \<noteq> Some n" and "declared l \<noteq> Some n"
    and "declared d = Some n" and "\<forall>x \<in> set post. declared x \<noteq> Some n"
  shows "\<exists>s s' sd mt r c.
           pass True pre s1 = Some s \<and> do_line True s l = Some s'
         \<and> line_loop True mid s' = Some sd
         \<and> instruction_tokens l = Some (mt, r) \<and> (take 3 mt, c, LAB) \<in> set token
         \<and> rom s' (pc s) = push_bit 8 c OR ucast (pc sd)
         \<and> other_error s' = other_error s
         \<and> label s1 n = ucast (pc sd)"
proof -
  define i0 where "i0 = (init_state rom0)\<lparr>pc := 0\<rparr>"
  have run1: "line_loop False (pre @ l # mid @ d # post) i0 = Some s1"
    using assms(1,3) by (simp add: pass_def i0_def)
  then obtain a1 b1 c1 e1 where
    pa: "line_loop False pre i0 = Some a1" and pl: "do_line False a1 l = Some b1"
    and pm: "line_loop False mid b1 = Some c1" and pd: "do_line False c1 d = Some e1"
    and pp: "line_loop False post e1 = Some s1"
    by (auto simp: line_loop_append split: option.splits)
  have z0: "syntax_error i0 = 0" by (simp add: i0_def init_state_def)
  have m1: "syntax_error i0 \<le> syntax_error a1" using line_loop_syntax_error_mono [OF pa] .
  have m2: "syntax_error a1 \<le> syntax_error b1" using do_line_syntax_error [OF pl] by simp
  have m3: "syntax_error b1 \<le> syntax_error c1" using line_loop_syntax_error_mono [OF pm] .
  have m4: "syntax_error c1 \<le> syntax_error e1" using do_line_syntax_error [OF pd] by simp
  have m5: "syntax_error e1 \<le> syntax_error s1" using line_loop_syntax_error_mono [OF pp] .
  have za: "syntax_error a1 = 0" and zb: "syntax_error b1 = 0" and zc: "syntax_error c1 = 0"
    using m1 m2 m3 m4 m5 assms(2) by auto
  have "label s1 n = label e1 n" using line_loop_label_frame [OF pp assms(8)] .
  also have "label e1 n = ucast (pc c1)" using do_line_label [OF pd] assms(7) by simp
  finally have fin: "label s1 n = ucast (pc c1)" .
  have pre1: "line_loop False (pre @ l # mid) i0 = Some c1"
    using pa pl pm by (simp add: line_loop_append)
  have "\<exists>c2. line_loop True (pre @ l # mid) (s1\<lparr>pc := 0\<rparr>) = Some c2 \<and> pc c2 = pc c1
          \<and> (\<forall>n. label c1 n \<noteq> INVALID \<longrightarrow> label c2 n \<noteq> INVALID)"
    by (rule line_loop_sim [OF pre1]) (simp_all add: zc z0 i0_def init_state_def)
  then obtain c2 where run2: "line_loop True (pre @ l # mid) (s1\<lparr>pc := 0\<rparr>) = Some c2"
    and pc2: "pc c2 = pc c1" by blast
  then obtain a2 b2 where
    qa: "line_loop True pre (s1\<lparr>pc := 0\<rparr>) = Some a2" and ql: "do_line True a2 l = Some b2"
    and qm: "line_loop True mid b2 = Some c2"
    by (auto simp: line_loop_append split: option.splits)
  have "label a2 n = label (s1\<lparr>pc := 0\<rparr>) n" using line_loop_label_frame [OF qa assms(5)] .
  then have la: "label a2 n = ucast (pc c1)" using fin by simp
  then have "label a2 n \<noteq> INVALID" by (simp add: ucast_pc_valid)
  from do_line_reference [OF pl _ assms(4,6) this] za zb ql
  obtain mt r c where "instruction_tokens l = Some (mt, r)" and "(take 3 mt, c, LAB) \<in> set token"
    and "rom b2 (pc a2) = push_bit 8 c OR label a2 n" and "other_error b2 = other_error a2"
    by auto
  then show ?thesis using qa ql qm la pc2 fin by (auto simp: pass_def)
qed

theorem C2_forward_reference_witness:
  "syntax_error (the (pass False [''JMP $1'' @ [CHR 0x0A], ''$1 ADI 00'' @ [CHR 0x0A]]
                        (init_state (\<lambda>a. 0)))) = 0
   \<and> referenced (''JMP $1'' @ [CHR 0x0A]) = Some 1
   \<and> declared (''$1 ADI 00'' @ [CHR 0x0A]) = Some 1
   \<and> (\<exists>s s'. pass True [] (the (pass False [''JMP $1'' @ [CHR 0x0A], ''$1 ADI 00'' @ [CHR 0x0A]]
                                  (init_state (\<lambda>a. 0)))) = Some s
          \<and> do_line True s (''JMP $1'' @ [CHR 0x0A]) = Some s'
          \<and> pc s = 0 \<and> rom s' 0 = 0xB01 \<and> other_error s' = other_error s)"
proof -
  let ?l = "''JMP $1'' @ [CHR 0x0A]"
  let ?d = "''$1 ADI 00'' @ [CHR 0x0A]"
  let ?s1 = "the (pass False [?l, ?d] (init_state (\<lambda>a. 0)))"
  have a: "pass False [?l, ?d] (init_state (\<lambda>a. 0)) = Some ?s1" by (simp add: run_defs)
  have b: "syntax_error ?s1 = 0" by (simp add: run_defs)
  have c: "[?l, ?d] = [] @ ?l # [] @ ?d # []" by simp
  have d: "referenced ?l = Some 1" by (simp add: run_defs line_defs)
  have e: "\<forall>x \<in> set []. declared x \<noteq> Some 1" by simp
  have f: "declared ?l \<noteq> Some 1" by (simp add: run_defs line_defs)
  have g: "declared ?d = Some 1" by (simp add: run_defs line_defs)
  from C2_forward_reference [OF a b c d e f g e]
  obtain s s' sd mt r c where p: "pass True [] ?s1 = Some s" and l: "do_line True s ?l = Some s'"
    and m: "line_loop True [] s' = Some sd"
    and it: "instruction_tokens ?l = Some (mt, r)" and tk: "(take 3 mt, c, LAB) \<in> set token"
    and w: "rom s' (pc s) = push_bit 8 c OR ucast (pc sd)"
    and oe: "other_error s' = other_error s" and fin: "label ?s1 1 = ucast (pc sd)"
    by blast
  have pc0: "pc s = 0" using p by (auto simp: pass_def)
  have "label ?s1 1 = 1" by (simp add: run_defs)
  then have ad: "(ucast (pc sd) :: unsigned) = 1" using fin by simp
  have "mt = ''JMP''" using it by (simp add: line_defs strtok_all_def delim_def)
  then have "c = 0xB" using tk by (simp add: token_def)
  then have "rom s' 0 = 0xB01" using w pc0 ad by simp
  then show ?thesis using b d g p l pc0 oe by blast
qed

text \<open>
  Claim C5 (exit status): when pass 1 counts a syntax error, pass 2 does not run, no
  hex file is written and the exit status is 1; when it counts none, pass 2 runs, the
  hex file is written with the words of \<^verbatim>\<open>rom\<close> after pass 2 and the exit status is
  0, whatever the counts of semantic errors and warnings. The source is any list of
  non-empty line buffers, which is what \<^verbatim>\<open>fgets\<close> delivers for a text file.
\<close>

theorem C5_exit_status:
  assumes "[] \<notin> set src"
  shows "\<exists>s1. pass False src (init_state rom0) = Some s1 \<and>
     (if 0 < syntax_error s1
      then main 4 rom0 src = Some \<lparr>exit_status = 1, hex_file = None, final = s1\<rparr>
      else \<exists>s2. pass True src s1 = Some s2 \<and>
             main 4 rom0 src = Some \<lparr>exit_status = 0, hex_file = Some (rom s2), final = s2\<rparr>)"
proof -
  from line_loop_first_pass [OF assms] obtain s1 where
    p1: "line_loop False src ((init_state rom0)\<lparr>pc := 0\<rparr>) = Some s1" by blast
  then have p1': "pass False src (init_state rom0) = Some s1" by (simp add: pass_def)
  show ?thesis
  proof (cases "0 < syntax_error s1")
    case True
    then show ?thesis using p1' by (simp add: main_def finish_def)
  next
    case False
    then have e: "syntax_error s1 = syntax_error ((init_state rom0)\<lparr>pc := 0\<rparr>)"
      by (simp add: init_state_def)
    have "\<exists>t2. line_loop True src (s1\<lparr>pc := 0\<rparr>) = Some t2 \<and> pc t2 = pc s1
           \<and> (\<forall>n. label s1 n \<noteq> INVALID \<longrightarrow> label t2 n \<noteq> INVALID)"
      by (rule line_loop_sim [OF p1 e]) (simp_all add: init_state_def)
    then obtain s2 where p2: "line_loop True src (s1\<lparr>pc := 0\<rparr>) = Some s2" by blast
    have "syntax_error s2 = 0" using line_loop_second_pass [OF p2] False by simp
    then show ?thesis using p1' p2 False by (simp add: main_def finish_def pass_def)
  qed
qed

theorem C5_exit_status_witness:
  "[] \<notin> set [''JMP $5'' @ [CHR 0x0A]] \<and>
   map_option (\<lambda>r. (exit_status r, other_error (final r), map_option (\<lambda>h. h 0) (hex_file r)))
     (main 4 (\<lambda>a. 0) [''JMP $5'' @ [CHR 0x0A]]) = Some (0, 1, Some 0xB00)"
proof -
  have h: "[] \<notin> set [''JMP $5'' @ [CHR 0x0A]]" by simp
  from C5_exit_status [OF h, of "\<lambda>a. 0"] obtain s1 where
    p: "pass False [''JMP $5'' @ [CHR 0x0A]] (init_state (\<lambda>a. 0)) = Some s1"
    and r: "if 0 < syntax_error s1
      then main 4 (\<lambda>a. 0) [''JMP $5'' @ [CHR 0x0A]] = Some \<lparr>exit_status = 1, hex_file = None, final = s1\<rparr>
      else \<exists>s2. pass True [''JMP $5'' @ [CHR 0x0A]] s1 = Some s2 \<and>
             main 4 (\<lambda>a. 0) [''JMP $5'' @ [CHR 0x0A]]
               = Some \<lparr>exit_status = 0, hex_file = Some (rom s2), final = s2\<rparr>"
    by blast
  from p have s1: "s1 = (init_state (\<lambda>a. 0))\<lparr>rom := (\<lambda>a. 0)(0 := 0xB00), pc := 1\<rparr>"
    by (simp add: run_defs)
  from r obtain s2 where p2: "pass True [''JMP $5'' @ [CHR 0x0A]] s1 = Some s2"
    and m: "main 4 (\<lambda>a. 0) [''JMP $5'' @ [CHR 0x0A]]
               = Some \<lparr>exit_status = 0, hex_file = Some (rom s2), final = s2\<rparr>"
    by (auto simp: s1 init_state_def)
  from p2 have "other_error s2 = 1 \<and> rom s2 0 = 0xB00"
    unfolding s1 by (auto simp: run_defs)
  then show ?thesis using h m by simp
qed

text \<open>
  Claim C8 (symbol table): every entry is \<^verbatim>\<open>INVALID\<close> at the start of the run; in
  pass 1 an id that no line read so far declares is still \<^verbatim>\<open>INVALID\<close>; pass 2
  starts from the table that pass 1 left and an id keeps the address it had at the
  start of pass 2 as long as no line read in pass 2 declares it (the table is not
  reset); and a line that declares an id writes the value of \<^verbatim>\<open>pc\<close> before the line
  into the entry of that id, in either pass.
\<close>

theorem C8_symbol_table:
  "label (init_state rom0) n = INVALID
   \<and> (pass False pre (init_state rom0) = Some s \<and> (\<forall>l \<in> set pre. declared l \<noteq> Some n)
        \<longrightarrow> label s n = INVALID)
   \<and> (pass True pre s1 = Some s2 \<and> (\<forall>l \<in> set pre. declared l \<noteq> Some n)
        \<longrightarrow> label s2 n = label s1 n)
   \<and> (do_line second_pass t l = Some t' \<and> declared l = Some n
        \<longrightarrow> label t' n = ucast (pc t))"
proof -
  have a: "label (init_state rom0) n = INVALID" by (simp add: init_state_def)
  have b: "label s n = INVALID"
    if "pass False pre (init_state rom0) = Some s \<and> (\<forall>l \<in> set pre. declared l \<noteq> Some n)"
    using that line_loop_label_frame [of False pre "(init_state rom0)\<lparr>pc := 0\<rparr>" s n]
    by (simp add: pass_def init_state_def)
  have c: "label s2 n = label s1 n"
    if "pass True pre s1 = Some s2 \<and> (\<forall>l \<in> set pre. declared l \<noteq> Some n)"
    using that line_loop_label_frame [of True pre "s1\<lparr>pc := 0\<rparr>" s2 n]
    by (simp add: pass_def)
  have d: "label t' n = ucast (pc t)"
    if "do_line second_pass t l = Some t' \<and> declared l = Some n"
    using that do_line_label [of second_pass t l t'] by simp
  show ?thesis using a b c d by blast
qed

theorem C8_symbol_table_witness:
  "label (init_state (\<lambda>a. 0)) 1 = INVALID
   \<and> label (the (pass False [''LDI 05'' @ [CHR 0x0A]] (init_state (\<lambda>a. 0)))) 1 = INVALID
   \<and> label (the (pass True [''LDI 05'' @ [CHR 0x0A]]
                ((init_state (\<lambda>a. 0))\<lparr>label := (\<lambda>i. INVALID)(1 := 7)\<rparr>))) 1 = 7
   \<and> label (the (do_line False ((init_state (\<lambda>a. 0))\<lparr>pc := 3\<rparr>)
                (''$1 LDI 05'' @ [CHR 0x0A]))) 1 = 3"
proof -
  let ?pre = "[''LDI 05'' @ [CHR 0x0A]]"
  let ?i = "init_state (\<lambda>a. 0)"
  let ?s1 = "?i\<lparr>label := (\<lambda>i. INVALID)(1 := 7)\<rparr>"
  let ?t = "?i\<lparr>pc := 3\<rparr>"
  let ?l = "''$1 LDI 05'' @ [CHR 0x0A]"
  have h1: "pass False ?pre ?i = Some (the (pass False ?pre ?i))
            \<and> (\<forall>l \<in> set ?pre. declared l \<noteq> Some 1)"
    by (simp add: run_defs line_defs)
  have h2: "pass True ?pre ?s1 = Some (the (pass True ?pre ?s1))
            \<and> (\<forall>l \<in> set ?pre. declared l \<noteq> Some 1)"
    by (simp add: run_defs line_defs)
  have h3: "do_line False ?t ?l = Some (the (do_line False ?t ?l)) \<and> declared ?l = Some 1"
    by (simp add: run_defs line_defs)
  show ?thesis
    using C8_symbol_table [of "\<lambda>a. 0" 1 ?pre "the (pass False ?pre ?i)" ?s1
        "the (pass True ?pre ?s1)" False ?t ?l "the (do_line False ?t ?l)"] h1 h2 h3
    by (simp add: init_state_def)
qed

text \<open>
  Claim C10 (instruction without operand): a line whose only token is one of the 16
  instruction mnemonics raises no diagnostic in either pass (no counter changes), the
  word at the current \<^verbatim>\<open>pc\<close> becomes the opcode shifted above a low byte of zero,
  and \<^verbatim>\<open>pc\<close> advances by 1 (modulo 256).
\<close>

theorem C10_no_operand:
  assumes "strtok_all line_buf = [m]" and "(m, c, t) \<in> set token" and "c < ORG"
  shows "do_line second_pass s line_buf
           = Some (s\<lparr>rom := (rom s)(pc s := push_bit 8 c), pc := pc s + 1\<rparr>)
         \<and> drop_bit 8 (push_bit 8 c) = c \<and> c < 16 \<and> push_bit 8 c AND 0xFF = 0"
proof -
  from assms(1) have ne: "line_buf \<noteq> []" by (auto simp: strtok_all_def)
  note tk = token_ok [OF assms(2)]
  have "switch second_pass m init_vars s = case_MNEMONIC second_pass m init_vars s"
    using tk by (simp add: switch_def init_vars_def case_LABEL_def)
  then have sw: "switch second_pass m init_vars s
      = Next (init_vars\<lparr>name := Some m, opcode := c, optype := Some t, parser_state := OPERAND\<rparr>)
             (s\<lparr>rom := (rom s)(pc s := push_bit 8 c)\<rparr>)"
    using tk assms(3) case_MNEMONIC_found [of m m c t second_pass init_vars s] by simp
  have "finish_line (tokens_loop second_pass (strtok_all line_buf) init_vars s)
         = Some (s\<lparr>rom := (rom s)(pc s := push_bit 8 c), pc := pc s + 1\<rparr>)"
    using assms(1,3) sw by (simp add: print_listing_def)
  then have "do_line second_pass s line_buf
           = Some (s\<lparr>rom := (rom s)(pc s := push_bit 8 c), pc := pc s + 1\<rparr>)"
    using ne by (cases line_buf) (auto simp: do_line_def)
  then show ?thesis using tk assms(3) by simp
qed

theorem C10_no_operand_witness:
  "strtok_all (''LDA'' @ [CHR 0x0A]) = [''LDA''] \<and> (''LDA'', 0xC, REG) \<in> set token
   \<and> (0xC :: unsigned) < ORG
   \<and> do_line True ((init_state (\<lambda>a. 0))\<lparr>pc := 255\<rparr>) (''LDA'' @ [CHR 0x0A])
     = Some ((init_state (\<lambda>a. 0))\<lparr>rom := (\<lambda>a. 0)(255 := 0xC00), pc := 0\<rparr>)"
proof -
  have a: "strtok_all (''LDA'' @ [CHR 0x0A]) = [''LDA'']" by (simp add: strtok_all_def delim_def)
  have b: "(''LDA'', 0xC, REG) \<in> set token" by (simp add: token_def)
  have c: "(0xC :: unsigned) < ORG" by (simp add: ORG_def)
  show ?thesis
    using C10_no_operand [OF a b c, of True "(init_state (\<lambda>a. 0))\<lparr>pc := 255\<rparr>"] a b c
    by (simp add: init_state_def)
qed

section \<open>The label token\<close>

text \<open>
  Claim C9 (label token): a label declaration token is accepted exactly when it is the
  marker followed by 1 to 4 decimal digits with a value of at most 9999.
  The token \<^verbatim>\<open>$+01\<close> is not of that form and the code accepts it, as the header
  of the source announces: the source \<^verbatim>\<open>LDI 05\<close> / \<^verbatim>\<open>$+01 JMP $1\<close> has no
  syntax error and the jump at address 1 is encoded \<open>0xB01\<close>.
\<close>

theorem C9_sign_accepted:
  "label_token_accepted ''$+01'' \<and> \<not> spec_label_token ''$+01'' \<and>
   map_option (\<lambda>r. (exit_status r, syntax_error (final r), map_option (\<lambda>h. h 1) (hex_file r)))
     (main 4 (\<lambda>a. 0) [''LDI 05'' @ [CHR 0x0A], ''$+01 JMP $1'' @ [CHR 0x0A]])
   = Some (0, 0, Some 0xB01)"
  by (simp add: label_token_accepted_def spec_label_token_def is_dec_digit_def run_defs)

text \<open>
  Claim C9 as amended: a label declaration token with a non-empty text \<open>t\<close> behind
  the marker is accepted exactly when \<open>t\<close> has at most 4 characters and consists of
  optional white space, one optional sign and at least one decimal digit, the digits
  being zeros behind a minus sign (\<open>label_text\<close>). An accepted token declares the
  label whose id is the decimal value of the digits, at most 9999, at the current
  \<^verbatim>\<open>pc\<close>; every other such token gives \<^verbatim>\<open>INVALID\<close> and, in pass 1, the syntax
  error \<^verbatim>\<open>incorrect label\<close>. Every marker followed by 1 to 4 decimal digits is
  among the accepted tokens, with the digits read as they stand.
\<close>

theorem C9_label_token:
  assumes "t \<noteq> []"
  shows "(label_token_accepted (CHR ''$'' # t) \<longleftrightarrow> label_text t)
       \<and> (if label_text t
          then decimal_value (label_digits t) \<le> 9999
             \<and> switch False (CHR ''$'' # t) init_vars s
                = Next (init_vars\<lparr>lnum := of_nat (decimal_value (label_digits t)),
                                  parser_state := MNEMONIC\<rparr>)
                       (s\<lparr>label := (label s)(decimal_value (label_digits t) := ucast (pc s))\<rparr>)
          else parse_label t 10 4 9999 = INVALID
             \<and> switch False (CHR ''$'' # t) init_vars s
                = Syntax_error Incorrect_label (init_vars\<lparr>lnum := INVALID\<rparr>) s)
       \<and> (if spec_label_token (CHR ''$'' # t) then label_text t \<and> label_digits t = t else True)"
proof -
  note pl = parse_label_10 [OF assms]
  have st: "starts (CHR ''$'' # t) (CHR ''$'')" by simp
  have a: "label_token_accepted (CHR ''$'' # t) \<longleftrightarrow> label_text t"
    using pl(1,2) by (auto simp: label_token_accepted_def)
  have b: "decimal_value (label_digits t) \<le> 9999
             \<and> switch False (CHR ''$'' # t) init_vars s
                = Next (init_vars\<lparr>lnum := of_nat (decimal_value (label_digits t)),
                                  parser_state := MNEMONIC\<rparr>)
                       (s\<lparr>label := (label s)(decimal_value (label_digits t) := ucast (pc s))\<rparr>)"
    if lt: "label_text t"
  proof -
    have le: "decimal_value (label_digits t) \<le> 9999" using pl(3) lt .
    have p: "parse_label t 10 4 9999 = of_nat (decimal_value (label_digits t))"
      using pl(1) lt by simp
    have u: "unat (of_nat (decimal_value (label_digits t)) :: unsigned) = decimal_value (label_digits t)"
      using le by (simp add: unat_of_nat)
    show ?thesis using case_LABEL_first_pass [OF st, of s] pl(2) [OF lt] p u le by simp
  qed
  have c: "parse_label t 10 4 9999 = INVALID
             \<and> switch False (CHR ''$'' # t) init_vars s
                = Syntax_error Incorrect_label (init_vars\<lparr>lnum := INVALID\<rparr>) s"
    if "\<not> label_text t"
    using that case_LABEL_first_pass [OF st, of s] pl(1) by simp
  have d: "label_text t \<and> label_digits t = t" if sp: "spec_label_token (CHR ''$'' # t)"
  proof -
    from sp have dg: "list_all is_dec_digit t" and len: "length t \<le> 4"
      by (auto simp: spec_label_token_def)
    have ld: "label_digits t = t" using digits_label_digits [OF assms dg] .
    have "label_text t"
      using dg len ld assms digits_not_minus [OF assms dg] by (simp add: label_text_def)
    then show ?thesis using ld by simp
  qed
  show ?thesis
    using a b c d by (cases "label_text t"; cases "spec_label_token (CHR ''$'' # t)"; auto)
qed

theorem C9_label_token_witness:
  "''+01'' \<noteq> [] \<and> label_token_accepted ''$+01'' \<and> label_text ''+01''
   \<and> switch False ''$+01'' init_vars (init_state (\<lambda>a. 0))
       = Next (init_vars\<lparr>lnum := 1, parser_state := MNEMONIC\<rparr>)
              ((init_state (\<lambda>a. 0))\<lparr>label := (\<lambda>i. INVALID)(1 := 0)\<rparr>)
   \<and> \<not> label_text ''12345''
   \<and> switch False ''$12345'' init_vars (init_state (\<lambda>a. 0))
       = Syntax_error Incorrect_label (init_vars\<lparr>lnum := INVALID\<rparr>) (init_state (\<lambda>a. 0))
   \<and> spec_label_token ''$0042'' \<and> label_text ''0042''"
proof -
  have h: "''+01'' \<noteq> []" "''12345'' \<noteq> []" "''0042'' \<noteq> []" by simp_all
  have e: "label_text ''+01''" "\<not> label_text ''12345''" "spec_label_token ''$0042''"
    "decimal_value (label_digits ''+01'') = 1"
    by (simp_all add: label_text_def label_digits_def isspace_def is_dec_digit_def
          decimal_value_def spec_label_token_def)
  show ?thesis
    using C9_label_token [OF h(1), of "init_state (\<lambda>a. 0)"]
      C9_label_token [OF h(2), of "init_state (\<lambda>a. 0)"]
      C9_label_token [OF h(3), of "init_state (\<lambda>a. 0)"] e
    by (simp add: init_state_def)
qed

end
